theory Spec2Isabelle
  imports Main "HOL-Library.Word"
begin

section \<open>GoFile Discord Embedder: link store, video start cache and streaming proxy\<close>

text \<open>
  A shallow embedding of \<^verbatim>\<open>index.js\<close>. The two global \<^verbatim>\<open>Map\<close>s are association
  lists in insertion order with distinct keys, \<^verbatim>\<open>Date.now()\<close> and
  \<^verbatim>\<open>crypto.randomBytes\<close> are arguments, the origin (GoFile, reached through axios) is a
  function from the request configuration to what comes back, and a handler returns the
  response together with the state and the list of origin calls it made.

  JavaScript numbers are modelled as mathematical integers. Every offset and length the
  handlers compare or print is bounded by a buffer length, which is below \<open>2 ^ 53\<close>,
  where doubles are exact and print as plain decimals; a parsed header value beyond that
  bound compares with a buffer length as its exact value does. The total size of a
  resource comes from the origin and has no such bound: it is kept as the integer its
  digits denote, where JavaScript keeps the nearest double, and the text JavaScript prints
  for it is an argument of the handler. Header strings are sequences of Latin-1
  characters, as Node decodes them.
\<close>

subsection \<open>Configuration\<close>

definition CACHE_CHUNK :: int where
  "CACHE_CHUNK = 2 * 1024 * 1024"

definition MAX_CACHE :: nat where
  "MAX_CACHE = 50"

definition CACHE_TTL :: int where
  "CACHE_TTL = 30 * 60 * 1000"

definition MAX_LINKS :: nat where
  "MAX_LINKS = 10000"

definition LINK_TTL :: int where
  "LINK_TTL = 60 * 60 * 1000"

subsection \<open>JavaScript \<^verbatim>\<open>Map\<close>: insertion-ordered, one entry per key\<close>

type_synonym ('k, 'v) jsmap = "('k \<times> 'v) list"

text \<open>\<^verbatim>\<open>Map.set\<close>: an existing key keeps its position, a new key goes to the end.\<close>

fun map_set :: "'k \<Rightarrow> 'v \<Rightarrow> ('k, 'v) jsmap \<Rightarrow> ('k, 'v) jsmap" where
  "map_set k v [] = [(k, v)]"
| "map_set k v (p # m) = (if fst p = k then (k, v) # m else p # map_set k v m)"

definition map_delete :: "'k \<Rightarrow> ('k, 'v) jsmap \<Rightarrow> ('k, 'v) jsmap" where
  "map_delete k m = filter (\<lambda>p. fst p \<noteq> k) m"

definition map_get :: "'k \<Rightarrow> ('k, 'v) jsmap \<Rightarrow> 'v option" where
  "map_get k m = map_of m k"

definition map_has :: "'k \<Rightarrow> ('k, 'v) jsmap \<Rightarrow> bool" where
  "map_has k m = (map_of m k \<noteq> None)"

definition map_keys :: "('k, 'v) jsmap \<Rightarrow> 'k list" where
  "map_keys m = map fst m"

text \<open>
  The capacity loop \<^verbatim>\<open>while (m.size > cap) m.delete(m.keys().next().value)\<close>.
\<close>

function evict_oldest :: "nat \<Rightarrow> ('k, 'v) jsmap \<Rightarrow> ('k, 'v) jsmap" where
  "evict_oldest cap m =
     (if length m > cap then evict_oldest cap (map_delete (hd (map_keys m)) m) else m)"
  by pat_completeness auto
termination
proof (relation "measure (\<lambda>(cap, m). length m)")
  show "wf (measure (\<lambda>(cap, m). length m))" by simp
next
  fix cap :: nat and m :: "('k, 'v) jsmap"
  assume "cap < length m"
  then obtain p ps where m: "m = p # ps" by (cases m) auto
  have "length (filter (\<lambda>q. fst q \<noteq> fst p) ps) \<le> length ps" by simp
  then show "((cap, map_delete (hd (map_keys m)) m), (cap, m)) \<in> measure (\<lambda>(cap, m). length m)"
    by (simp add: m map_delete_def map_keys_def less_Suc_eq_le)
qed

declare evict_oldest.simps [simp del]

subsection \<open>Short link store\<close>

type_synonym byte = "8 word"

record link_data =
  videoUrl :: string
  token :: string
  thumb :: string
  name :: string
  w :: int
  h :: int

record link_entry = link_data +
  createdAt :: int

type_synonym link_store = "(string, link_entry) jsmap"

definition base64url_alphabet :: string where
  "base64url_alphabet =
     ''ABCDEFGHIJKLMNOPQRSTUVWXYZabcdefghijklmnopqrstuvwxyz0123456789-_''"

definition b64 :: "nat \<Rightarrow> char" where
  "b64 n = base64url_alphabet ! n"

text \<open>\<^verbatim>\<open>Buffer.toString('base64url')\<close>: six bits a character, no padding.\<close>

fun base64url :: "byte list \<Rightarrow> string" where
  "base64url [] = []"
| "base64url [a] = [b64 (unat a div 4), b64 (unat a mod 4 * 16)]"
| "base64url [a, b] =
     [b64 (unat a div 4), b64 (unat a mod 4 * 16 + unat b div 16), b64 (unat b mod 16 * 4)]"
| "base64url (a # b # c # bs) =
     [b64 (unat a div 4), b64 (unat a mod 4 * 16 + unat b div 16),
      b64 (unat b mod 16 * 4 + unat c div 64), b64 (unat c mod 64)] @ base64url bs"

type_synonym random4 = "byte \<times> byte \<times> byte \<times> byte"

text \<open>\<^verbatim>\<open>createShortId\<close>, on the four bytes \<^verbatim>\<open>crypto.randomBytes(4)\<close> returned.\<close>

fun createShortId :: "random4 \<Rightarrow> string" where
  "createShortId (b0, b1, b2, b3) = base64url [b0, b1, b2, b3]"

definition pruneLinks :: "int \<Rightarrow> link_store \<Rightarrow> link_store" where
  "pruneLinks now linkStore =
     evict_oldest MAX_LINKS (filter (\<lambda>(id, entry). \<not> now - createdAt entry > LINK_TTL) linkStore)"

text \<open>
  \<^verbatim>\<open>storeLink\<close> reads the clock twice: in \<^verbatim>\<open>pruneLinks\<close> and for \<^verbatim>\<open>createdAt\<close>.
  It returns the identifier and the new store.
\<close>

definition storeLink :: "random4 \<Rightarrow> int \<Rightarrow> int \<Rightarrow> link_data \<Rightarrow> link_store \<Rightarrow> string \<times> link_store" where
  "storeLink rnd now_prune now_store data linkStore =
     (let pruned = pruneLinks now_prune linkStore;
          id = createShortId rnd
      in (id, map_set id (link_data.extend data (link_entry.fields now_store)) pruned))"

subsection \<open>Strings, numbers and the two regular expressions\<close>

datatype jsnum = NaN | Num int

definition is_digit :: "char \<Rightarrow> bool" where
  "is_digit c = (c \<in> set ''0123456789'')"

definition digit_val :: "char \<Rightarrow> int" where
  "digit_val c = int (of_char c) - 48"

definition digits_value :: "string \<Rightarrow> int" where
  "digits_value ds = foldl (\<lambda>n c. 10 * n + digit_val c) 0 ds"

text \<open>
  The characters \<^verbatim>\<open>parseInt\<close> skips at the start, among Latin-1: tab, line feed,
  vertical tab, form feed, carriage return, space and no-break space.
\<close>

definition is_ws :: "char \<Rightarrow> bool" where
  "is_ws c = ((of_char c :: nat) \<in> {9, 10, 11, 12, 13, 32, 160})"

text \<open>\<^verbatim>\<open>parseInt(s, 10)\<close>: white space, an optional sign, the longest run of digits.\<close>

definition parseInt10 :: "string \<Rightarrow> jsnum" where
  "parseInt10 s =
     (let s1 = dropWhile is_ws s;
          neg = (s1 \<noteq> [] \<and> hd s1 = CHR ''-'');
          s2 = (if s1 \<noteq> [] \<and> (hd s1 = CHR ''-'' \<or> hd s1 = CHR ''+'') then tl s1 else s1);
          ds = takeWhile is_digit s2
      in if ds = [] then NaN
         else Num (if neg then - digits_value ds else digits_value ds))"

definition digit_char :: "nat \<Rightarrow> char" where
  "digit_char n = ''0123456789'' ! n"

fun decimal :: "nat \<Rightarrow> string" where
  "decimal n = (if n < 10 then [digit_char n] else decimal (n div 10) @ [digit_char (n mod 10)])"

declare decimal.simps [simp del]

text \<open>
  A number inside a template literal, for the offsets and lengths the handlers print: they
  are below a buffer's length, where the text is the plain decimal.
\<close>

definition num_string :: "int \<Rightarrow> string" where
  "num_string i = (if i < 0 then CHR ''-'' # decimal (nat (- i)) else decimal (nat i))"

text \<open>
  A number of any size inside a template literal. The text JavaScript prints for a number
  (digits rounded above \<open>2 ^ 53\<close>, exponent form from \<open>10 ^ 21\<close>, \<^verbatim>\<open>Infinity\<close>) is the
  platform's: \<open>number_string\<close> is an argument, the text printed for the double nearest
  to an integer.
\<close>

definition jsnum_string :: "(int \<Rightarrow> string) \<Rightarrow> jsnum \<Rightarrow> string" where
  "jsnum_string number_string x = (case x of NaN \<Rightarrow> ''NaN'' | Num i \<Rightarrow> number_string i)"

definition starts_with :: "string \<Rightarrow> string \<Rightarrow> bool" where
  "starts_with p s = (take (length p) s = p)"

definition ends_with :: "string \<Rightarrow> string \<Rightarrow> bool" where
  "ends_with p s = (length p \<le> length s \<and> drop (length s - length p) s = p)"

text \<open>\<^verbatim>\<open>s.replace(/bytes=/, '')\<close> removes the first occurrence of a non-empty pattern.\<close>

fun remove_first :: "string \<Rightarrow> string \<Rightarrow> string" where
  "remove_first p [] = []"
| "remove_first p (c # s) =
     (if starts_with p (c # s) then drop (length p) (c # s) else c # remove_first p s)"

text \<open>\<^verbatim>\<open>s.split('-')\<close>: never empty; the empty string gives one empty part.\<close>

fun split_on :: "char \<Rightarrow> string \<Rightarrow> string list" where
  "split_on d [] = [[]]"
| "split_on d (c # s) =
     (if c = d then [] # split_on d s
      else (case split_on d s of [] \<Rightarrow> [[c]] | p # ps \<Rightarrow> (c # p) # ps))"

definition is_hexdash :: "char \<Rightarrow> bool" where
  "is_hexdash c = (c \<in> set ''abcdef0123456789-'')"

text \<open>
  The first match of \<^verbatim>\<open>/\/download\/web\/([a-f0-9-]+)\//\<close>, its group. The group's
  characters exclude the slash that must follow it, so the greedy run is the only candidate
  at each position.
\<close>

fun download_web_match :: "string \<Rightarrow> string option" where
  "download_web_match [] = None"
| "download_web_match (c # s) =
     (let rest = drop 14 (c # s);
          grp = takeWhile is_hexdash rest;
          after = dropWhile is_hexdash rest
      in if starts_with ''/download/web/'' (c # s) \<and> grp \<noteq> [] \<and> after \<noteq> [] \<and> hd after = CHR ''/''
         then Some grp else download_web_match s)"

text \<open>The first match of \<^verbatim>\<open>/\/(\d+)/\<close>, its group.\<close>

fun slash_digits_match :: "string \<Rightarrow> string option" where
  "slash_digits_match [] = None"
| "slash_digits_match (c # s) =
     (if c = CHR ''/'' \<and> takeWhile is_digit s \<noteq> [] then Some (takeWhile is_digit s)
      else slash_digits_match s)"

subsection \<open>Outbound calls\<close>

text \<open>
  What the code passes to axios. A field the code leaves out is \<open>None\<close>; axios then uses
  its default, which for \<^verbatim>\<open>timeout\<close> is \<open>0\<close>: no timeout.
\<close>

record axios_config =
  cfg_method :: string
  cfg_url :: string
  cfg_headers :: "(string \<times> string) list"
  cfg_params :: "(string \<times> string) list"
  cfg_responseType :: "string option"
  cfg_maxRedirects :: "nat option"
  cfg_timeout :: "nat option"
  cfg_decompress :: "bool option"

definition has_timeout :: "axios_config \<Rightarrow> bool" where
  "has_timeout cfg = (case cfg_timeout cfg of None \<Rightarrow> False | Some ms \<Rightarrow> 0 < ms)"

text \<open>
  What comes back once redirects are followed: a response with its status, headers (names
  in lower case, as axios gives them) and body, or no response at all (network error,
  timeout, too many redirects).
\<close>

datatype origin_outcome =
  OriginResponse nat "(string \<times> string) list" "byte list"
| OriginFailure string

type_synonym origin = "axios_config \<Rightarrow> origin_outcome"

record axios_response =
  resp_status :: nat
  resp_headers :: "(string \<times> string) list"
  resp_data :: "byte list"

datatype axios_error = AxiosError string "nat option"

fun err_message :: "axios_error \<Rightarrow> string" where
  "err_message (AxiosError msg st) = msg"

fun err_response_status :: "axios_error \<Rightarrow> nat option" where
  "err_response_status (AxiosError msg st) = st"

text \<open>
  An axios call: it throws when there is no response and, by axios's default
  \<^verbatim>\<open>validateStatus\<close>, on every status outside 200..299; the error then carries the response.
\<close>

definition axios_request :: "origin \<Rightarrow> axios_config \<Rightarrow> axios_error + axios_response" where
  "axios_request origin cfg =
     (case origin cfg of
        OriginFailure msg \<Rightarrow> Inl (AxiosError msg None)
      | OriginResponse st hs d \<Rightarrow>
          if 200 \<le> st \<and> st < 300
          then Inr \<lparr>resp_status = st, resp_headers = hs, resp_data = d\<rparr>
          else Inl (AxiosError (''Request failed with status code '' @ decimal st) (Some st)))"

definition GOFILE_WT :: string where
  "GOFILE_WT = ''4fd6sg89d7s6''"

text \<open>The two calls of \<^verbatim>\<open>POST /generate\<close>: the guest token and the content listing.\<close>

definition accounts_request :: axios_config where
  "accounts_request =
     \<lparr>cfg_method = ''post'', cfg_url = ''https://api.gofile.io/accounts'', cfg_headers = [],
      cfg_params = [], cfg_responseType = None, cfg_maxRedirects = None, cfg_timeout = None,
      cfg_decompress = None\<rparr>"

definition contents_request :: "string \<Rightarrow> string \<Rightarrow> axios_config" where
  "contents_request contentId tok =
     \<lparr>cfg_method = ''get'', cfg_url = ''https://api.gofile.io/contents/'' @ contentId,
      cfg_headers = [(''Authorization'', ''Bearer '' @ tok), (''X-Website-Token'', GOFILE_WT)],
      cfg_params = [(''page'', ''1''), (''pageSize'', ''1000''), (''sortField'', ''createTime''),
                    (''sortDirection'', ''-1'')],
      cfg_responseType = None, cfg_maxRedirects = None, cfg_timeout = None,
      cfg_decompress = None\<rparr>"

text \<open>The ranged read of \<^verbatim>\<open>prefetch\<close>; the cookie only for a non-empty token.\<close>

definition prefetch_request :: "string \<Rightarrow> string \<Rightarrow> axios_config" where
  "prefetch_request url tok =
     \<lparr>cfg_method = ''get'', cfg_url = url,
      cfg_headers = (''Range'', ''bytes=0-'' @ num_string (CACHE_CHUNK - 1)) #
                    (if tok \<noteq> [] then [(''Cookie'', ''accountToken='' @ tok)] else []),
      cfg_params = [], cfg_responseType = Some ''arraybuffer'', cfg_maxRedirects = Some 5,
      cfg_timeout = Some 15000, cfg_decompress = None\<rparr>"

text \<open>The streamed read of the proxy; cookie and range only when non-empty.\<close>

definition stream_request :: "string \<Rightarrow> string \<Rightarrow> string option \<Rightarrow> axios_config" where
  "stream_request url tok rangeHeader =
     \<lparr>cfg_method = ''get'', cfg_url = url,
      cfg_headers = (if tok \<noteq> [] then [(''Cookie'', ''accountToken='' @ tok)] else []) @
                    (case rangeHeader of
                       None \<Rightarrow> []
                     | Some r \<Rightarrow> if r \<noteq> [] then [(''Range'', r)] else []),
      cfg_params = [], cfg_responseType = Some ''stream'', cfg_maxRedirects = Some 5,
      cfg_timeout = None, cfg_decompress = Some False\<rparr>"

subsection \<open>Video start cache\<close>

record cache_entry =
  buffer :: "byte list"
  contentType :: string
  totalSize :: "jsnum option"
  createdAt :: int

type_synonym video_cache = "(string, cache_entry) jsmap"

definition cacheKey :: "string \<Rightarrow> string" where
  "cacheKey url = (case download_web_match url of Some m1 \<Rightarrow> m1 | None \<Rightarrow> url)"

definition pruneCache :: "int \<Rightarrow> video_cache \<Rightarrow> video_cache" where
  "pruneCache now videoCache =
     evict_oldest MAX_CACHE
       (filter (\<lambda>(k, v). \<not> now - cache_entry.createdAt v > CACHE_TTL) videoCache)"

text \<open>\<^verbatim>\<open>headers[h] || dflt\<close>: a missing or empty header gives the default.\<close>

definition header_or :: "(string \<times> string) list \<Rightarrow> string \<Rightarrow> string \<Rightarrow> string" where
  "header_or hs hn dflt = (case map_of hs hn of None \<Rightarrow> dflt | Some v \<Rightarrow> if v = [] then dflt else v)"

text \<open>
  The entry \<^verbatim>\<open>prefetch\<close> builds from the origin's response. The buffer is the whole
  response body. The total is the integer the digits after the slash denote; the double
  JavaScript keeps for it is zero only when that integer is.
\<close>

definition prefetch_entry :: "int \<Rightarrow> axios_response \<Rightarrow> cache_entry" where
  "prefetch_entry now_store resp =
     (let ct = header_or (resp_headers resp) ''content-type'' ''video/mp4'';
          range = header_or (resp_headers resp) ''content-range'' [];
          total = slash_digits_match range
      in \<lparr>buffer = resp_data resp, contentType = ct,
          totalSize = (case total of None \<Rightarrow> None | Some ds \<Rightarrow> Some (parseInt10 ds)),
          createdAt = now_store\<rparr>)"

text \<open>
  The \<^verbatim>\<open>try\<close> block of \<^verbatim>\<open>prefetch\<close>: \<open>Inl\<close> is what it throws. The cache it writes is
  the cache as it is when the origin's answer arrives.
\<close>

definition prefetch_try ::
  "origin \<Rightarrow> int \<Rightarrow> int \<Rightarrow> string \<Rightarrow> string \<Rightarrow> video_cache \<Rightarrow> axios_error + video_cache" where
  "prefetch_try origin now_prune now_store url tok videoCache =
     (case axios_request origin (prefetch_request url tok) of
        Inl err \<Rightarrow> Inl err
      | Inr resp \<Rightarrow>
          Inr (map_set (cacheKey url) (prefetch_entry now_store resp)
                 (pruneCache now_prune videoCache)))"

datatype settled = Fulfilled | Rejected axios_error

text \<open>
  \<^verbatim>\<open>prefetch\<close>, run without interleaving: how its promise settles, the cache afterwards
  and the origin calls made. The \<^verbatim>\<open>catch\<close> only logs.
\<close>

definition prefetch ::
  "origin \<Rightarrow> int \<Rightarrow> int \<Rightarrow> string \<Rightarrow> string \<Rightarrow> video_cache
     \<Rightarrow> settled \<times> video_cache \<times> axios_config list" where
  "prefetch origin now_prune now_store url tok videoCache =
     (if map_has (cacheKey url) videoCache then (Fulfilled, videoCache, [])
      else (case prefetch_try origin now_prune now_store url tok videoCache of
              Inl err \<Rightarrow> (Fulfilled, videoCache, [prefetch_request url tok])
            | Inr videoCache' \<Rightarrow> (Fulfilled, videoCache', [prefetch_request url tok])))"

subsection \<open>Streaming proxy\<close>

record state =
  linkStore :: link_store
  videoCache :: video_cache

record request =
  query_id :: "string option"
  range_header :: "string option"

datatype body = NoBody | Text string | Bytes "byte list"

record response =
  status :: nat
  headers :: "(string \<times> string) list"
  body :: body

definition new_response :: response where
  "new_response = \<lparr>status = 200, headers = [], body = NoBody\<rparr>"

definition lower_char :: "char \<Rightarrow> char" where
  "lower_char c =
     (case map_of (zip ''ABCDEFGHIJKLMNOPQRSTUVWXYZ'' ''abcdefghijklmnopqrstuvwxyz'') c of
        Some l \<Rightarrow> l | None \<Rightarrow> c)"

text \<open>\<^verbatim>\<open>res.setHeader\<close>: Node keys the headers of a response by lower-cased name.\<close>

definition setHeader :: "string \<Rightarrow> string \<Rightarrow> response \<Rightarrow> response" where
  "setHeader hn v res = res\<lparr>headers := map_set (map lower_char hn) v (headers res)\<rparr>"

definition getHeader :: "string \<Rightarrow> response \<Rightarrow> string option" where
  "getHeader hn res = map_of (headers res) (map lower_char hn)"

text \<open>
  \<^verbatim>\<open>res.status(code).send(text)\<close>; the headers Express derives from the body are left to
  Express.
\<close>

definition send_text :: "nat \<Rightarrow> string \<Rightarrow> response \<Rightarrow> response" where
  "send_text code txt res = res\<lparr>status := code, body := Text txt\<rparr>"

text \<open>
  \<^verbatim>\<open>new URL(url).hostname\<close> is the platform's URL parser, an argument here: \<open>None\<close>
  when it throws.
\<close>

definition isGoFile :: "(string \<Rightarrow> string option) \<Rightarrow> string \<Rightarrow> bool" where
  "isGoFile hostname_of url =
     (case hostname_of url of None \<Rightarrow> False | Some hn \<Rightarrow> ends_with ''.gofile.io'' hn)"

text \<open>The middleware on \<^verbatim>\<open>/v\<close>: four headers on every response.\<close>

definition cors_headers :: "response \<Rightarrow> response" where
  "cors_headers res =
     setHeader ''Access-Control-Expose-Headers''
         ''Content-Range, Accept-Ranges, Content-Length, Content-Type''
       (setHeader ''Access-Control-Allow-Headers'' ''Range''
         (setHeader ''Access-Control-Allow-Methods'' ''GET, HEAD, OPTIONS''
           (setHeader ''Access-Control-Allow-Origin'' ''*'' res)))"

definition options_v :: response where
  "options_v = (cors_headers new_response)\<lparr>status := 204\<rparr>"

text \<open>
  The range header as the handler reads it: an empty header counts as absent. The first
  component is \<^verbatim>\<open>rStart\<close> (\<^verbatim>\<open>NaN\<close> and \<open>0\<close> both give \<open>0\<close>), the second \<^verbatim>\<open>rEnd\<close>,
  \<open>None\<close> for \<^verbatim>\<open>null\<close>.
\<close>

definition has_range :: "string option \<Rightarrow> bool" where
  "has_range rangeHeader = (case rangeHeader of None \<Rightarrow> False | Some r \<Rightarrow> r \<noteq> [])"

definition parse_range :: "string option \<Rightarrow> int \<times> jsnum option" where
  "parse_range rangeHeader =
     (case rangeHeader of
        None \<Rightarrow> (0, None)
      | Some r \<Rightarrow>
          if r = [] then (0, None)
          else (let parts = split_on (CHR ''-'') (remove_first ''bytes='' r);
                    rStart = (case parseInt10 (parts ! 0) of NaN \<Rightarrow> 0 | Num n \<Rightarrow> n);
                    rEnd = (if 1 < length parts \<and> parts ! 1 \<noteq> []
                            then Some (parseInt10 (parts ! 1)) else None)
                in (rStart, rEnd)))"

text \<open>\<^verbatim>\<open>TypedArray.prototype.subarray\<close>: negative indices count from the end, both are clamped.\<close>

definition clamp_index :: "int \<Rightarrow> int \<Rightarrow> nat" where
  "clamp_index len i = nat (if i < 0 then max (len + i) 0 else min i len)"

definition subarray :: "byte list \<Rightarrow> int \<Rightarrow> int \<Rightarrow> byte list" where
  "subarray buf from until =
     (let len = int (length buf); b = clamp_index len from; e = clamp_index len until
      in take (e - b) (drop b buf))"

text \<open>\<^verbatim>\<open>if (cached.totalSize)\<close>: \<^verbatim>\<open>null\<close>, \<^verbatim>\<open>NaN\<close> and \<open>0\<close> are falsy.\<close>

definition truthy_num :: "jsnum option \<Rightarrow> bool" where
  "truthy_num x = (case x of None \<Rightarrow> False | Some NaN \<Rightarrow> False | Some (Num n) \<Rightarrow> n \<noteq> 0)"

text \<open>
  The cache path (lines 443 to 456): \<open>Some\<close> the response it ends the request with,
  \<open>None\<close> when the handler goes on to the origin. A comparison with \<^verbatim>\<open>NaN\<close> is false.
\<close>

definition effective_end :: "byte list \<Rightarrow> jsnum option \<Rightarrow> jsnum" where
  "effective_end buf rEnd = (case rEnd of Some x \<Rightarrow> x | None \<Rightarrow> Num (int (length buf) - 1))"

definition serve_cached ::
  "(int \<Rightarrow> string) \<Rightarrow> cache_entry \<Rightarrow> int \<Rightarrow> jsnum option \<Rightarrow> response \<Rightarrow> response option" where
  "serve_cached number_string cached rStart rEnd res =
     (let len = int (length (buffer cached));
          fin = effective_end (buffer cached) rEnd
      in case fin of
           NaN \<Rightarrow> None
         | Num e \<Rightarrow>
             if rStart < len \<and> e < len then
               (let slice = subarray (buffer cached) rStart (e + 1);
                    res1 = setHeader ''Content-Type'' (contentType cached) res;
                    res2 = setHeader ''Content-Length'' (num_string (int (length slice))) res1;
                    res3 = setHeader ''Accept-Ranges'' ''bytes'' res2;
                    res4 = setHeader ''Content-Disposition'' ''inline'' res3;
                    res5 = (if truthy_num (totalSize cached)
                            then setHeader ''Content-Range''
                                   (''bytes '' @ num_string rStart @ ''-'' @ num_string e @ ''/''
                                      @ (case totalSize cached of None \<Rightarrow> ''null''
                                         | Some t \<Rightarrow> jsnum_string number_string t)) res4
                            else res4)
                in Some (res5\<lparr>status := 206, body := Bytes slice\<rparr>))
             else None)"

text \<open>
  The live path (lines 459 to 482): one streamed read. On success the origin's status and
  four of its headers are mirrored and its body is piped through; when axios throws,
  nothing has been sent yet and the answer is the origin's status, or 502 without one.
\<close>

definition mirror_header :: "axios_response \<Rightarrow> response \<Rightarrow> string \<Rightarrow> response" where
  "mirror_header upstream res hn =
     (case map_of (resp_headers upstream) hn of
        None \<Rightarrow> res
      | Some v \<Rightarrow> if v = [] then res else setHeader hn v res)"

definition stream_live ::
  "origin \<Rightarrow> string \<Rightarrow> string \<Rightarrow> string option \<Rightarrow> response \<Rightarrow> response \<times> axios_config list" where
  "stream_live origin url tok rangeHeader res =
     (let cfg = stream_request url tok rangeHeader
      in case axios_request origin cfg of
           Inr upstream \<Rightarrow>
             (let res1 = foldl (mirror_header upstream) res
                           [''content-type'', ''content-length'', ''content-range'', ''accept-ranges''];
                  res2 = setHeader ''Content-Disposition'' ''inline'' res1
              in (res2\<lparr>status := resp_status upstream, body := Bytes (resp_data upstream)\<rparr>, [cfg]))
         | Inl err \<Rightarrow>
             (send_text (case err_response_status err of
                           None \<Rightarrow> 502 | Some st \<Rightarrow> if st = 0 then 502 else st)
                ''Proxy error'' res, [cfg]))"

text \<open>
  \<^verbatim>\<open>app.get('/v/:filename')\<close> on the response the middleware prepared: the response, the
  state afterwards and the origin calls made.
\<close>

definition get_v ::
  "(string \<Rightarrow> string option) \<Rightarrow> (int \<Rightarrow> string) \<Rightarrow> origin \<Rightarrow> state \<Rightarrow> request \<Rightarrow> response
     \<Rightarrow> response \<times> state \<times> axios_config list" where
  "get_v hostname_of number_string origin st req res =
     (case (case query_id req of None \<Rightarrow> None | Some i \<Rightarrow> map_get i (linkStore st)) of
        None \<Rightarrow> (send_text 404 ''Link expired or not found.'' res, st, [])
      | Some entry \<Rightarrow>
          if \<not> isGoFile hostname_of (videoUrl entry) then (send_text 403 ''Invalid source.'' res, st, [])
          else
            (let url = videoUrl entry;
                 tok = token entry;
                 rangeHeader = range_header req;
                 (rStart, rEnd) = parse_range rangeHeader;
                 cached = map_get (cacheKey url) (videoCache st);
                 hit = (case cached of
                          None \<Rightarrow> None
                        | Some c \<Rightarrow> if has_range rangeHeader
                                    then serve_cached number_string c rStart rEnd res
                                    else None)
             in case hit of
                  Some r \<Rightarrow> (r, st, [])
                | None \<Rightarrow> (let (r, calls) = stream_live origin url tok rangeHeader res
                           in (r, st, calls))))"

text \<open>A \<^verbatim>\<open>GET /v/:filename\<close> request through the middleware and the handler.\<close>

definition play ::
  "(string \<Rightarrow> string option) \<Rightarrow> (int \<Rightarrow> string) \<Rightarrow> origin \<Rightarrow> state \<Rightarrow> request
     \<Rightarrow> response \<times> state \<times> axios_config list" where
  "play hostname_of number_string origin st req =
     get_v hostname_of number_string origin st req (cors_headers new_response)"

subsection \<open>Notions the properties are stated with\<close>

text \<open>The bytes of a buffer at the indices \<open>lo, \<dots>, hi\<close>, both included.\<close>

definition byte_slice :: "byte list \<Rightarrow> int \<Rightarrow> int \<Rightarrow> byte list" where
  "byte_slice buf lo hi = map (\<lambda>i. buf ! nat i) [lo..hi]"

definition in_buffer :: "byte list \<Rightarrow> int \<Rightarrow> bool" where
  "in_buffer buf i = (0 \<le> i \<and> i < int (length buf))"

text \<open>The number of bytes the cache holds under a key.\<close>

definition cached_length :: "video_cache \<Rightarrow> string \<Rightarrow> int option" where
  "cached_length cache k = map_option (int \<circ> length \<circ> buffer) (map_get k cache)"

text \<open>The link entry a request resolves to (line 423).\<close>

definition resolve :: "state \<Rightarrow> request \<Rightarrow> link_entry option" where
  "resolve st req = (case query_id req of None \<Rightarrow> None | Some i \<Rightarrow> map_get i (linkStore st))"

subsection \<open>Sample inputs\<close>

text \<open>A stand-in for the URL parser: the host of an \<^verbatim>\<open>https\<close> URL, up to the first slash.\<close>

definition sample_hostname :: "string \<Rightarrow> string option" where
  "sample_hostname url =
     (if starts_with ''https://'' url then Some (takeWhile (\<lambda>c. c \<noteq> CHR ''/'') (drop 8 url))
      else None)"

definition sample_url :: string where
  "sample_url = ''https://store1.gofile.io/download/web/0a1b-2c3d/clip.mp4''"

definition sample_link :: link_entry where
  "sample_link =
     \<lparr>videoUrl = sample_url, token = ''guest'', thumb = [], name = ''clip.mp4'',
      w = 1920, h = 1080, link_entry.createdAt = 0\<rparr>"

definition sample_cached :: cache_entry where
  "sample_cached =
     \<lparr>buffer = [10, 11, 12, 13, 14, 15, 16, 17], contentType = ''video/mp4'',
      totalSize = Some (Num 100), createdAt = 0\<rparr>"

definition sample_state :: state where
  "sample_state =
     \<lparr>linkStore = [(''AQIDBA'', sample_link)], videoCache = [(''0a1b-2c3d'', sample_cached)]\<rparr>"

text \<open>An origin that cannot be reached, and one that answers every call with one status.\<close>

definition origin_down :: origin where
  "origin_down cfg = OriginFailure ''connect ECONNREFUSED''"

definition origin_status :: "nat \<Rightarrow> origin" where
  "origin_status code cfg = OriginResponse code [] []"


text \<open>An origin that answers every call with bytes 8 and 9 of a 100-byte resource.\<close>

definition origin_partial :: origin where
  "origin_partial cfg = OriginResponse 206 [(''content-range'', ''bytes 8-9/100'')] [18, 19]"

text \<open>The sample store with a cache entry whose total size is the number \<open>0\<close>.\<close>

definition zero_total_cached :: cache_entry where
  "zero_total_cached = sample_cached\<lparr>totalSize := Some (Num 0)\<rparr>"

definition zero_total_state :: state where
  "zero_total_state =
     \<lparr>linkStore = [(''AQIDBA'', sample_link)], videoCache = [(''0a1b-2c3d'', zero_total_cached)]\<rparr>"

text \<open>Two short links to the sample URL, and an origin that honours the warm-up's range.\<close>

definition two_links :: link_store where
  "two_links =
     [(''AQIDBA'', sample_link),
      (''_____w'', sample_link\<lparr>token := ''other'', link_entry.createdAt := 5\<rparr>)]"

definition origin_warm :: origin where
  "origin_warm cfg =
     OriginResponse 206 [(''content-type'', ''video/mp4''), (''content-range'', ''bytes 0-3/100'')]
       [10, 11, 12, 13]"

text \<open>An origin that ignores the range and sends one byte more than the chunk size.\<close>

definition oversized_body :: "byte list" where
  "oversized_body = replicate (nat CACHE_CHUNK + 1) 0"

definition origin_oversized :: origin where
  "origin_oversized cfg = OriginResponse 200 [] oversized_body"

text \<open>The data of a second video.\<close>

definition other_data :: link_data where
  "other_data =
     \<lparr>videoUrl = ''https://store2.gofile.io/download/web/ffff-0000/other.mp4'', token = ''guest2'',
      thumb = [], name = ''other.mp4'', w = 1920, h = 1080\<rparr>"

text \<open>
  A run of \<^verbatim>\<open>storeLink\<close> calls at one clock reading, and a sequence of random draws that
  are pairwise different.
\<close>

fun store_all :: "random4 list \<Rightarrow> int \<Rightarrow> link_data \<Rightarrow> link_store \<Rightarrow> link_store" where
  "store_all [] now data store = store"
| "store_all (rnd # rnds) now data store =
     store_all rnds now data (snd (storeLink rnd now now data store))"

definition draw :: "nat \<Rightarrow> random4" where
  "draw i = (0, 0, word_of_nat (i div 256), word_of_nat (i mod 256))"

definition draws :: "nat \<Rightarrow> random4 list" where
  "draws n = map draw [0..<n]"

text \<open>
  A run of warm-ups at one clock reading, each run to its end before the next starts, and
  the URLs of pairwise different videos.
\<close>

fun warm_all :: "origin \<Rightarrow> string list \<Rightarrow> int \<Rightarrow> video_cache \<Rightarrow> video_cache" where
  "warm_all origin [] now cache = cache"
| "warm_all origin (url # urls) now cache =
     warm_all origin urls now (fst (snd (prefetch origin now now url ''guest'' cache)))"

definition video_url :: "nat \<Rightarrow> string" where
  "video_url i = ''https://store1.gofile.io/download/web/'' @ decimal i @ ''/v.mp4''"

definition video_urls :: "nat \<Rightarrow> string list" where
  "video_urls n = map video_url [0..<n]"

text \<open>An origin whose \<^verbatim>\<open>Content-Range\<close> gives the total size as \<open>0\<close>.\<close>

definition origin_zero_total :: origin where
  "origin_zero_total cfg =
     OriginResponse 206 [(''content-type'', ''video/mp4''), (''content-range'', ''bytes 0-7/0'')]
       [10, 11, 12, 13, 14, 15, 16, 17]"

section \<open>Properties\<close>

subsection \<open>The insertion-ordered map\<close>

lemma map_of_map_set: "map_of (map_set k v m) = (map_of m)(k \<mapsto> v)"
  by (induction m) auto

lemma map_get_map_set: "map_get k' (map_set k v m) = (if k' = k then Some v else map_get k' m)"
  by (simp add: map_get_def map_of_map_set)

lemma map_keys_map_set:
  "map_keys (map_set k v m) = (if k \<in> set (map_keys m) then map_keys m else map_keys m @ [k])"
  by (induction m) (auto simp: map_keys_def)

lemma map_set_fresh: "k \<notin> set (map_keys m) \<Longrightarrow> map_set k v m = m @ [(k, v)]"
  by (induction m) (auto simp: map_keys_def)

lemma distinct_map_set: "distinct (map_keys m) \<Longrightarrow> distinct (map_keys (map_set k v m))"
  by (simp add: map_keys_map_set)

lemma length_map_set:
  "length (map_set k v m) = (if k \<in> set (map_keys m) then length m else Suc (length m))"
  by (induction m) (auto simp: map_keys_def)

lemma set_map_set_subset: "set (map_set k v m) \<subseteq> insert (k, v) (set m)"
  by (induction m) auto

lemma map_has_iff: "map_has k m \<longleftrightarrow> k \<in> set (map_keys m)"
  by (simp add: map_has_def map_keys_def map_of_eq_None_iff)

lemma evict_oldest_small: "length m \<le> cap \<Longrightarrow> evict_oldest cap m = m"
  by (simp add: evict_oldest.simps)

lemma map_delete_hd:
  "distinct (map_keys (p # m)) \<Longrightarrow> map_delete (hd (map_keys (p # m))) (p # m) = m"
proof -
  assume d: "distinct (map_keys (p # m))"
  have "\<forall>q \<in> set m. fst q \<noteq> fst p"
    using d by (simp add: map_keys_def) (metis image_eqI)
  then have "filter (\<lambda>q. fst q \<noteq> fst p) m = m"
    by (simp add: filter_id_conv)
  then show ?thesis
    by (simp add: map_delete_def map_keys_def)
qed

text \<open>With distinct keys the capacity loop drops entries from the front: the oldest first.\<close>

lemma evict_oldest_drop:
  "distinct (map_keys m) \<Longrightarrow> evict_oldest cap m = drop (length m - cap) m"
proof (induction cap m rule: evict_oldest.induct)
  case (1 cap m)
  show ?case
  proof (cases "cap < length m")
    case False
    then show ?thesis by (simp add: evict_oldest.simps)
  next
    case True
    then obtain p ps where m: "m = p # ps" by (cases m) auto
    have del: "map_delete (hd (map_keys m)) m = ps"
      using "1.prems" unfolding m by (rule map_delete_hd)
    have dps: "distinct (map_keys ps)"
      using "1.prems" by (simp add: m map_keys_def)
    have "evict_oldest cap m = evict_oldest cap ps"
      using True del by (subst evict_oldest.simps) simp
    also have "\<dots> = drop (length ps - cap) ps"
      using "1.IH" [OF True] dps del by simp
    also have "\<dots> = drop (length m - cap) m"
      using True by (simp add: m Suc_diff_le)
    finally show ?thesis .
  qed
qed

lemma set_evict_oldest: "set (evict_oldest cap m) \<subseteq> set m"
proof (induction cap m rule: evict_oldest.induct)
  case (1 cap m)
  show ?case
  proof (cases "cap < length m")
    case False
    then show ?thesis by (simp add: evict_oldest.simps)
  next
    case True
    have "evict_oldest cap m = evict_oldest cap (map_delete (hd (map_keys m)) m)"
      using True by (subst evict_oldest.simps) simp
    moreover have "set (map_delete (hd (map_keys m)) m) \<subseteq> set m"
      by (auto simp: map_delete_def)
    ultimately show ?thesis using "1.IH" [OF True] by auto
  qed
qed

lemma length_evict_oldest: "length (evict_oldest cap m) \<le> cap"
proof (induction cap m rule: evict_oldest.induct)
  case (1 cap m)
  show ?case
  proof (cases "cap < length m")
    case False
    then show ?thesis by (simp add: evict_oldest.simps)
  next
    case True
    have "evict_oldest cap m = evict_oldest cap (map_delete (hd (map_keys m)) m)"
      using True by (subst evict_oldest.simps) simp
    then show ?thesis using "1.IH" [OF True] by simp
  qed
qed

lemma distinct_evict_oldest: "distinct (map_keys m) \<Longrightarrow> distinct (map_keys (evict_oldest cap m))"
  by (simp add: evict_oldest_drop map_keys_def drop_map [symmetric])

lemma distinct_filter_keys: "distinct (map_keys m) \<Longrightarrow> distinct (map_keys (filter P m))"
  by (simp add: map_keys_def distinct_map_filter)

subsection \<open>Timeouts of the outbound calls\<close>

text \<open>
  C5. The claim: every outbound origin call (the guest-token and metadata fetches of link
  creation, the warm-up's ranged read, the live-stream open) is issued with a finite
  timeout. The code passes a timeout to one of the four calls only: the warm-up read has
  15000 ms, the other three are issued with none.
\<close>

theorem only_prefetch_has_timeout:
  "has_timeout (prefetch_request url tok) \<and> cfg_timeout (prefetch_request url tok) = Some 15000
   \<and> \<not> has_timeout accounts_request
   \<and> \<not> has_timeout (contents_request contentId tok)
   \<and> \<not> has_timeout (stream_request url tok rangeHeader)"
  by (simp add: has_timeout_def prefetch_request_def accounts_request_def contents_request_def
      stream_request_def)

subsection \<open>Evaluation and small facts\<close>



lemma triple_collapse: "p = (fst p, fst (snd p), snd (snd p))"
  by simp

subsection \<open>Terminal error responses of the proxy\<close>



subsection \<open>The proxy on the sample inputs\<close>

lemma sample_key: "cacheKey sample_url = ''0a1b-2c3d''"
  by (simp add: cacheKey_def sample_url_def starts_with_def is_hexdash_def)

lemma sample_trusted: "isGoFile sample_hostname sample_url"
  by (simp add: isGoFile_def sample_hostname_def sample_url_def starts_with_def ends_with_def)

lemma stream_live_calls: "snd (stream_live origin url tok rh res) = [stream_request url tok rh]"
  by (simp add: stream_live_def Let_def split: sum.splits)

subsection \<open>A failed warm-up leaves no trace\<close>

text \<open>
  C6. Whatever the origin does, the promise of \<^verbatim>\<open>prefetch\<close> is fulfilled, never rejected:
  nothing reaches the caller. When the ranged read fails, with no response at all (network
  error, timeout) or with a status outside 200..299, the cache is exactly what it was, so
  no entry has been stored under the derived key.
\<close>

theorem prefetch_failure_swallowed:
  assumes "prefetch origin now_prune now_store url tok cache = (outcome, cache', calls)"
  shows "outcome = Fulfilled
       \<and> (origin (prefetch_request url tok) = OriginFailure msg \<longrightarrow>
            cache' = cache \<and> map_get (cacheKey url) cache' = map_get (cacheKey url) cache)
       \<and> (origin (prefetch_request url tok) = OriginResponse code hs d
            \<and> \<not> (200 \<le> code \<and> code < 300) \<longrightarrow>
            cache' = cache \<and> map_get (cacheKey url) cache' = map_get (cacheKey url) cache)"
  using assms
  by (auto simp: prefetch_def prefetch_try_def axios_request_def
      split: if_splits sum.splits origin_outcome.splits)

theorem prefetch_failure_swallowed_witness:
  "prefetch origin_down 1000 1001 sample_url ''guest'' [] = (Fulfilled, [], [prefetch_request sample_url ''guest''])
   \<and> fst (prefetch (origin_status 503) 1000 1001 sample_url ''guest'' []) = Fulfilled
   \<and> fst (snd (prefetch (origin_status 503) 1000 1001 sample_url ''guest'' [])) = []"
proof -
  have a: "prefetch origin_down 1000 1001 sample_url ''guest'' [] = (Fulfilled, [], [prefetch_request sample_url ''guest''])"
    using prefetch_failure_swallowed [where origin = origin_down and now_prune = 1000
        and now_store = 1001 and url = sample_url and tok = "''guest''" and cache = "[]"
        and msg = "''connect ECONNREFUSED''", OF triple_collapse]
    by (simp add: origin_down_def prefetch_def map_has_def prefetch_try_def axios_request_def)
  have b: "fst (prefetch (origin_status 503) 1000 1001 sample_url ''guest'' []) = Fulfilled
    \<and> fst (snd (prefetch (origin_status 503) 1000 1001 sample_url ''guest'' [])) = []"
    using prefetch_failure_swallowed [where origin = "origin_status 503" and now_prune = 1000
        and now_store = 1001 and url = sample_url and tok = "''guest''" and cache = "[]"
        and code = 503 and hs = "[]" and d = "[]", OF triple_collapse]
    by (simp add: origin_status_def)
  from a b show ?thesis by simp
qed

subsection \<open>Ranges that leave the cached bytes go to the origin\<close>

text \<open>
  C3. For a playback request whose link resolves to a trusted URL with a cache entry: when
  the parsed start is at or beyond the buffer's length, or the effective end (the given
  end, or the buffer's last index when the range is open) is at or beyond it or is not a
  number, the cache path is not taken. The response is the one of the live path, made
  with one streamed read that forwards the range header as received; no slice of the
  cache is returned.
\<close>

theorem beyond_cache_goes_live:
  assumes "resolve st req = Some entry"
    and "isGoFile hn (videoUrl entry)"
    and "map_get (cacheKey (videoUrl entry)) (videoCache st) = Some c"
    and "parse_range (range_header req) = (rStart, rEnd)"
    and "int (length (buffer c)) \<le> rStart
         \<or> effective_end (buffer c) rEnd = NaN
         \<or> effective_end (buffer c) rEnd = Num e \<and> int (length (buffer c)) \<le> e"
  shows "play hn ns origin st req =
           (fst (stream_live origin (videoUrl entry) (token entry) (range_header req)
                   (cors_headers new_response)),
            st, [stream_request (videoUrl entry) (token entry) (range_header req)])"
proof -
  have miss: "serve_cached ns c rStart rEnd res = None" for res
    using assms(5) by (auto simp: serve_cached_def Let_def split: jsnum.splits)
  obtain r calls where live: "stream_live origin (videoUrl entry) (token entry)
      (range_header req) (cors_headers new_response) = (r, calls)"
    by (cases "stream_live origin (videoUrl entry) (token entry) (range_header req)
      (cors_headers new_response)") auto
  have "calls = [stream_request (videoUrl entry) (token entry) (range_header req)]"
    using stream_live_calls [of origin "videoUrl entry" "token entry" "range_header req"
        "cors_headers new_response"] live by simp
  then show ?thesis
    using assms(1-4) miss live
    by (simp add: play_def get_v_def resolve_def Let_def)
qed

theorem beyond_cache_goes_live_witness:
  "play sample_hostname num_string origin_partial sample_state
      \<lparr>query_id = Some ''AQIDBA'', range_header = Some ''bytes=8-9''\<rparr> =
     (fst (stream_live origin_partial sample_url ''guest'' (Some ''bytes=8-9'')
        (cors_headers new_response)), sample_state,
      [stream_request sample_url ''guest'' (Some ''bytes=8-9'')])
   \<and> body (fst (play sample_hostname num_string origin_partial sample_state
      \<lparr>query_id = Some ''AQIDBA'', range_header = Some ''bytes=8-9''\<rparr>)) = Bytes [18, 19]
   \<and> snd (snd (play sample_hostname num_string origin_partial sample_state
      \<lparr>query_id = Some ''AQIDBA'', range_header = Some ''bytes=2-8''\<rparr>)) =
     [stream_request sample_url ''guest'' (Some ''bytes=2-8'')]"
proof -
  let ?req2 = "\<lparr>query_id = Some ''AQIDBA'', range_header = Some ''bytes=2-8''\<rparr>"
  have a2: "resolve sample_state ?req2 = Some sample_link"
    by (simp add: resolve_def map_get_def sample_state_def)
  have d2: "parse_range (range_header ?req2) = (2, Some (Num 8))"
    by (simp add: parse_range_def starts_with_def parseInt10_def is_ws_def is_digit_def
        digits_value_def digit_val_def)
  have e2: "effective_end (buffer sample_cached) (Some (Num 8)) = Num 8
      \<and> int (length (buffer sample_cached)) \<le> 8"
    by (simp add: sample_cached_def effective_end_def)
  let ?req = "\<lparr>query_id = Some ''AQIDBA'', range_header = Some ''bytes=8-9''\<rparr>"
  have a: "resolve sample_state ?req = Some sample_link"
    by (simp add: resolve_def map_get_def sample_state_def)
  have b: "isGoFile sample_hostname (videoUrl sample_link)"
    by (simp add: sample_link_def sample_trusted)
  have c: "map_get (cacheKey (videoUrl sample_link)) (videoCache sample_state) = Some sample_cached"
    by (simp add: sample_link_def sample_key map_get_def sample_state_def)
  have d: "parse_range (range_header ?req) = (8, Some (Num 9))"
    by (simp add: parse_range_def starts_with_def parseInt10_def is_ws_def is_digit_def
        digits_value_def digit_val_def)
  have e: "int (length (buffer sample_cached)) \<le> 8"
    by (simp add: sample_cached_def)
  have f: "play sample_hostname num_string origin_partial sample_state ?req =
     (fst (stream_live origin_partial sample_url ''guest'' (Some ''bytes=8-9'')
        (cors_headers new_response)), sample_state,
      [stream_request sample_url ''guest'' (Some ''bytes=8-9'')])"
    using beyond_cache_goes_live [where e = 0 and origin = origin_partial and ns = num_string,
        OF a b c d] e
    by (simp add: sample_link_def)
  have g: "body (fst (stream_live origin_partial sample_url ''guest'' (Some ''bytes=8-9'')
        (cors_headers new_response))) = Bytes [18, 19]"
    by (simp add: stream_live_def axios_request_def origin_partial_def Let_def)
  have h: "snd (snd (play sample_hostname num_string origin_partial sample_state ?req2)) =
      [stream_request sample_url ''guest'' (Some ''bytes=2-8'')]"
    using beyond_cache_goes_live [where e = 8 and origin = origin_partial and ns = num_string,
        OF a2 b c d2] e2
    by (simp add: sample_link_def)
  from f g h show ?thesis by simp
qed

subsection \<open>Serving a range from the cached bytes\<close>

lemma subarray_byte_slice:
  assumes "in_buffer buf s" and "in_buffer buf e"
  shows "subarray buf s (e + 1) = byte_slice buf s e"
proof (rule nth_equalityI)
  have s: "0 \<le> s" "s < int (length buf)" and e: "0 \<le> e" "e < int (length buf)"
    using assms by (simp_all add: in_buffer_def)
  have sub: "subarray buf s (e + 1) = take (nat (e + 1) - nat s) (drop (nat s) buf)"
    using s e by (simp add: subarray_def clamp_index_def Let_def min_def)
  show len: "length (subarray buf s (e + 1)) = length (byte_slice buf s e)"
    using s e by (auto simp: sub byte_slice_def)
  fix i assume "i < length (subarray buf s (e + 1))"
  then have i: "i < nat (e + 1) - nat s" "nat s + i < length buf"
    using s e by (auto simp: sub)
  then have "s + int i \<le> e" using s e by linarith
  then have "[s..e] ! i = s + int i" by (rule nth_upto)
  moreover have "i < length [s..e]" using len \<open>i < length (subarray buf s (e + 1))\<close>
    by (simp add: byte_slice_def)
  ultimately have "byte_slice buf s e ! i = buf ! nat (s + int i)"
    by (simp add: byte_slice_def)
  moreover have "subarray buf s (e + 1) ! i = buf ! (nat s + i)"
    using i by (simp add: sub)
  moreover have "nat (s + int i) = nat s + i" using s by linarith
  ultimately show "subarray buf s (e + 1) ! i = byte_slice buf s e ! i" by simp
qed

lemma getHeader_setHeader:
  "getHeader hn (setHeader hn' v res) =
     (if map lower_char hn = map lower_char hn' then Some v else getHeader hn res)"
  by (simp add: getHeader_def setHeader_def map_of_map_set)

lemma getHeader_update [simp]:
  "getHeader hn (res\<lparr>status := code\<rparr>) = getHeader hn res"
  "getHeader hn (res\<lparr>body := b\<rparr>) = getHeader hn res"
  by (simp_all add: getHeader_def)

lemma status_setHeader [simp]: "status (setHeader hn v res) = status res"
  and body_setHeader [simp]: "body (setHeader hn v res) = body res"
  by (simp_all add: setHeader_def)

lemma cors_no_content_range:
  "getHeader ''Content-Range'' (cors_headers new_response) = None"
  by (simp add: cors_headers_def new_response_def getHeader_def setHeader_def lower_char_def)

lemma lower_names:
  "map lower_char ''Content-Type'' = ''content-type''"
  "map lower_char ''Content-Length'' = ''content-length''"
  "map lower_char ''Accept-Ranges'' = ''accept-ranges''"
  "map lower_char ''Content-Disposition'' = ''content-disposition''"
  "map lower_char ''Content-Range'' = ''content-range''"
  by (simp_all add: lower_char_def)

text \<open>What the cache path answers when start and effective end lie in the buffer.\<close>

lemma serve_cached_hit_eq:
  assumes "effective_end (buffer c) rEnd = Num e"
    and "in_buffer (buffer c) rStart" and "in_buffer (buffer c) e"
  shows "serve_cached ns c rStart rEnd res =
     Some ((if truthy_num (totalSize c)
            then setHeader ''Content-Range''
                   (''bytes '' @ num_string rStart @ ''-'' @ num_string e @ ''/''
                      @ (case totalSize c of None \<Rightarrow> ''null'' | Some t \<Rightarrow> jsnum_string ns t))
            else (\<lambda>x. x))
           (setHeader ''Content-Disposition'' ''inline''
             (setHeader ''Accept-Ranges'' ''bytes''
               (setHeader ''Content-Length''
                  (num_string (int (length (byte_slice (buffer c) rStart e))))
                 (setHeader ''Content-Type'' (contentType c) res))))
           \<lparr>status := 206, body := Bytes (byte_slice (buffer c) rStart e)\<rparr>)"
proof -
  have lt: "rStart < int (length (buffer c))" "e < int (length (buffer c))"
    using assms(2,3) by (simp_all add: in_buffer_def)
  have sl: "subarray (buffer c) rStart (e + 1) = byte_slice (buffer c) rStart e"
    using assms(2,3) by (rule subarray_byte_slice)
  show ?thesis
    using lt by (simp add: serve_cached_def Let_def assms(1) sl)
qed

lemma truthy_num_cases:
  "truthy_num x \<longleftrightarrow> (\<exists>t. x = Some (Num t) \<and> t \<noteq> 0)"
  by (cases x) (auto simp: truthy_num_def split: jsnum.splits)

lemma serve_cached_hit:
  assumes "effective_end (buffer c) rEnd = Num e"
    and "in_buffer (buffer c) rStart" and "in_buffer (buffer c) e"
  shows "\<exists>r. serve_cached ns c rStart rEnd (cors_headers new_response) = Some r
      \<and> status r = 206
      \<and> body r = Bytes (byte_slice (buffer c) rStart e)
      \<and> getHeader ''Content-Length'' r =
          Some (num_string (int (length (byte_slice (buffer c) rStart e))))
      \<and> getHeader ''Accept-Ranges'' r = Some ''bytes''
      \<and> getHeader ''Content-Range'' r =
          (case totalSize c of
             Some (Num t) \<Rightarrow>
               if t \<noteq> 0
               then Some (''bytes '' @ num_string rStart @ ''-'' @ num_string e @ ''/'' @ ns t)
               else None
           | _ \<Rightarrow> None)"
proof (cases "truthy_num (totalSize c)")
  case True
  then obtain t where t: "totalSize c = Some (Num t)" "t \<noteq> 0"
    by (auto simp: truthy_num_cases)
  show ?thesis
    unfolding serve_cached_hit_eq [OF assms]
    using True t
    by (simp add: getHeader_setHeader lower_names jsnum_string_def del: list.map)
next
  case False
  then have nr: "(case totalSize c of
             Some (Num t) \<Rightarrow>
               if t \<noteq> 0
               then Some (''bytes '' @ num_string rStart @ ''-'' @ num_string e @ ''/'' @ ns t)
               else None
           | _ \<Rightarrow> None) = None"
    by (auto simp: truthy_num_def split: option.splits jsnum.splits)
  show ?thesis
    unfolding serve_cached_hit_eq [OF assms] nr
    using False
    by (simp add: getHeader_setHeader lower_names cors_no_content_range del: list.map)
qed

lemma play_cache_hit:
  assumes "resolve st req = Some entry" and "isGoFile hn (videoUrl entry)"
    and "map_get (cacheKey (videoUrl entry)) (videoCache st) = Some c"
    and "has_range (range_header req)"
    and "parse_range (range_header req) = (rStart, rEnd)"
    and "serve_cached ns c rStart rEnd (cors_headers new_response) = Some r"
  shows "play hn ns origin st req = (r, st, [])"
  using assms by (simp add: play_def get_v_def resolve_def Let_def)

lemma parse_1_3: "parse_range (Some ''bytes=1-3'') = (1, Some (Num 3))"
  by (simp add: parse_range_def starts_with_def parseInt10_def is_ws_def is_digit_def
        digits_value_def digit_val_def)

lemma slice_1_3: "byte_slice [10, 11, 12, 13, 14, 15, 16, 17] 1 3 = [11, 12, 13]"
  by code_simp

text \<open>
  C1, as amended. For a playback request with a range header whose link resolves to a
  trusted URL with a cache entry, and whose parsed start and effective end (the end if
  given, else the buffer's last index) both lie in the buffer: the response has status
  206, its body is exactly the bytes \<open>start, \<dots>, end\<close> of the buffer,
  \<^verbatim>\<open>Content-Length\<close> is the length of that slice, \<^verbatim>\<open>Accept-Ranges\<close> is
  \<^verbatim>\<open>bytes\<close>, no origin call is made, and \<^verbatim>\<open>Content-Range\<close> is
  \<^verbatim>\<open>bytes start-end/total\<close>, the total as JavaScript prints it (\<open>ns\<close>), exactly when
  the entry's total size is a number other than zero; otherwise the header is absent.
\<close>

theorem cached_range_served_from_cache:
  assumes "resolve st req = Some entry" and "isGoFile hn (videoUrl entry)"
    and "map_get (cacheKey (videoUrl entry)) (videoCache st) = Some c"
    and "has_range (range_header req)"
    and "parse_range (range_header req) = (rStart, rEnd)"
    and "effective_end (buffer c) rEnd = Num e"
    and "in_buffer (buffer c) rStart" and "in_buffer (buffer c) e"
    and "play hn ns origin st req = (r, st', calls)"
  shows "status r = 206
       \<and> body r = Bytes (byte_slice (buffer c) rStart e)
       \<and> getHeader ''Content-Length'' r =
           Some (num_string (int (length (byte_slice (buffer c) rStart e))))
       \<and> getHeader ''Accept-Ranges'' r = Some ''bytes''
       \<and> getHeader ''Content-Range'' r =
           (case totalSize c of
              Some (Num t) \<Rightarrow>
                if t \<noteq> 0
                then Some (''bytes '' @ num_string rStart @ ''-'' @ num_string e @ ''/'' @ ns t)
                else None
            | _ \<Rightarrow> None)
       \<and> calls = [] \<and> st' = st"
proof -
  obtain r0 where r0: "serve_cached ns c rStart rEnd (cors_headers new_response) = Some r0"
    and props: "status r0 = 206"
      "body r0 = Bytes (byte_slice (buffer c) rStart e)"
      "getHeader ''Content-Length'' r0 =
          Some (num_string (int (length (byte_slice (buffer c) rStart e))))"
      "getHeader ''Accept-Ranges'' r0 = Some ''bytes''"
      "getHeader ''Content-Range'' r0 =
          (case totalSize c of
             Some (Num t) \<Rightarrow>
               if t \<noteq> 0
               then Some (''bytes '' @ num_string rStart @ ''-'' @ num_string e @ ''/'' @ ns t)
               else None
           | _ \<Rightarrow> None)"
    using serve_cached_hit [OF assms(6,7,8)] by blast
  have "play hn ns origin st req = (r0, st, [])"
    using assms(1-5) r0 by (rule play_cache_hit)
  with assms(9) have "r = r0" "st' = st" "calls = []" by simp_all
  with props show ?thesis by simp
qed

theorem cached_range_served_from_cache_witness:
  "status (fst (play sample_hostname num_string origin_down sample_state
        \<lparr>query_id = Some ''AQIDBA'', range_header = Some ''bytes=1-3''\<rparr>)) = 206
   \<and> body (fst (play sample_hostname num_string origin_down sample_state
        \<lparr>query_id = Some ''AQIDBA'', range_header = Some ''bytes=1-3''\<rparr>)) = Bytes [11, 12, 13]
   \<and> getHeader ''Content-Length'' (fst (play sample_hostname num_string origin_down sample_state
        \<lparr>query_id = Some ''AQIDBA'', range_header = Some ''bytes=1-3''\<rparr>)) = Some ''3''
   \<and> getHeader ''Content-Range'' (fst (play sample_hostname num_string origin_down sample_state
        \<lparr>query_id = Some ''AQIDBA'', range_header = Some ''bytes=1-3''\<rparr>)) = Some ''bytes 1-3/100''
   \<and> snd (snd (play sample_hostname num_string origin_down sample_state
        \<lparr>query_id = Some ''AQIDBA'', range_header = Some ''bytes=1-3''\<rparr>)) = []"
proof -
  let ?req = "\<lparr>query_id = Some ''AQIDBA'', range_header = Some ''bytes=1-3''\<rparr>"
  have a: "resolve sample_state ?req = Some sample_link"
    by (simp add: resolve_def map_get_def sample_state_def)
  have b: "isGoFile sample_hostname (videoUrl sample_link)"
    by (simp add: sample_link_def sample_trusted)
  have c: "map_get (cacheKey (videoUrl sample_link)) (videoCache sample_state) = Some sample_cached"
    by (simp add: sample_link_def sample_key map_get_def sample_state_def)
  have d: "has_range (range_header ?req)" by (simp add: has_range_def)
  have e: "parse_range (range_header ?req) = (1, Some (Num 3))" by (simp add: parse_1_3)
  have buf: "buffer sample_cached = [10, 11, 12, 13, 14, 15, 16, 17]"
    by (simp add: sample_cached_def)
  have f: "effective_end (buffer sample_cached) (Some (Num 3)) = Num 3"
    by (simp add: effective_end_def)
  have g: "in_buffer (buffer sample_cached) 1" "in_buffer (buffer sample_cached) 3"
    by (simp_all add: in_buffer_def buf)
  have tot: "totalSize sample_cached = Some (Num 100)"
    by (simp add: sample_cached_def)
  have n: "num_string 1 = ''1''" "num_string 3 = ''3''" "num_string 100 = ''100''"
    by (simp_all add: num_string_def decimal.simps digit_char_def)
  show ?thesis
    using cached_range_served_from_cache [where origin = origin_down and ns = num_string,
        OF a b c d e f g triple_collapse]
    by (simp add: buf tot slice_1_3 n)
qed

text \<open>A warm-up stores such an entry when the origin reports a total of \<open>0\<close>.\<close>

lemma zero_total_stored:
  "fst (snd (prefetch origin_zero_total 0 0 sample_url ''guest'' [])) =
     [(''0a1b-2c3d'', zero_total_cached)]"
  by (simp add: prefetch_def map_has_def prefetch_try_def axios_request_def origin_zero_total_def
      sample_key pruneCache_def evict_oldest.simps prefetch_entry_def header_or_def
      is_digit_def parseInt10_def is_ws_def digits_value_def digit_val_def
      zero_total_cached_def sample_cached_def)

text \<open>
  C1, as stated, asks for \<^verbatim>\<open>Content-Range\<close> whenever the total size is known. An entry
  whose total size is the number \<open>0\<close> is served from the cache without it: the handler
  tests the size for truthiness.
\<close>

theorem zero_total_counterexample:
  "map_get (cacheKey sample_url) (videoCache zero_total_state) = Some zero_total_cached
   \<and> totalSize zero_total_cached = Some (Num 0)
   \<and> status (fst (play sample_hostname num_string origin_down zero_total_state
        \<lparr>query_id = Some ''AQIDBA'', range_header = Some ''bytes=1-3''\<rparr>)) = 206
   \<and> body (fst (play sample_hostname num_string origin_down zero_total_state
        \<lparr>query_id = Some ''AQIDBA'', range_header = Some ''bytes=1-3''\<rparr>)) = Bytes [11, 12, 13]
   \<and> getHeader ''Content-Range'' (fst (play sample_hostname num_string origin_down zero_total_state
        \<lparr>query_id = Some ''AQIDBA'', range_header = Some ''bytes=1-3''\<rparr>)) = None"
proof -
  let ?req = "\<lparr>query_id = Some ''AQIDBA'', range_header = Some ''bytes=1-3''\<rparr>"
  have a: "resolve zero_total_state ?req = Some sample_link"
    by (simp add: resolve_def map_get_def zero_total_state_def)
  have b: "isGoFile sample_hostname (videoUrl sample_link)"
    by (simp add: sample_link_def sample_trusted)
  have c: "map_get (cacheKey (videoUrl sample_link)) (videoCache zero_total_state) = Some zero_total_cached"
    by (simp add: sample_link_def sample_key map_get_def zero_total_state_def)
  have d: "has_range (range_header ?req)" by (simp add: has_range_def)
  have e: "parse_range (range_header ?req) = (1, Some (Num 3))" by (simp add: parse_1_3)
  have buf: "buffer zero_total_cached = [10, 11, 12, 13, 14, 15, 16, 17]"
    by (simp add: zero_total_cached_def sample_cached_def)
  have f: "effective_end (buffer zero_total_cached) (Some (Num 3)) = Num 3"
    by (simp add: effective_end_def)
  have g: "in_buffer (buffer zero_total_cached) 1" "in_buffer (buffer zero_total_cached) 3"
    by (simp_all add: in_buffer_def buf)
  have tot: "totalSize zero_total_cached = Some (Num 0)"
    by (simp add: zero_total_cached_def)
  obtain r where r: "serve_cached num_string zero_total_cached 1 (Some (Num 3)) (cors_headers new_response) = Some r"
    and props: "status r = 206" "body r = Bytes (byte_slice (buffer zero_total_cached) 1 3)"
      "getHeader ''Content-Range'' r =
          (case totalSize zero_total_cached of
             Some (Num t) \<Rightarrow>
               if t \<noteq> 0
               then Some (''bytes '' @ num_string 1 @ ''-'' @ num_string 3 @ ''/'' @ num_string t)
               else None
           | _ \<Rightarrow> None)"
    using serve_cached_hit [where ns = num_string, OF f g] by blast
  have p: "play sample_hostname num_string origin_down zero_total_state ?req = (r, zero_total_state, [])"
    using a b c d e r by (rule play_cache_hit)
  show ?thesis
    using c props by (simp add: p tot buf slice_1_3 sample_link_def)
qed

subsection \<open>Decimal numerals and the range parser\<close>

lemma digit_char_cases:
  assumes "k < 10"
  shows "k = 0 \<or> k = 1 \<or> k = 2 \<or> k = 3 \<or> k = 4 \<or> k = 5 \<or> k = 6 \<or> k = 7 \<or> k = 8 \<or> k = (9::nat)"
  using assms by arith

lemma digit_char_is_digit: "k < 10 \<Longrightarrow> is_digit (digit_char k)"
  using digit_char_cases [of k] by (auto simp: is_digit_def digit_char_def)

lemma digit_val_digit_char: "k < 10 \<Longrightarrow> digit_val (digit_char k) = int k"
  using digit_char_cases [of k] by (auto simp: digit_val_def digit_char_def)

lemma decimal_digits: "c \<in> set (decimal n) \<Longrightarrow> is_digit c"
proof (induction n rule: decimal.induct)
  case (1 n)
  then show ?case
    by (subst (asm) decimal.simps) (auto simp: digit_char_is_digit split: if_splits)
qed

lemma decimal_nonempty: "decimal n \<noteq> []"
  by (subst decimal.simps) simp

lemma digits_value_snoc: "digits_value (ds @ [c]) = 10 * digits_value ds + digit_val c"
  by (simp add: digits_value_def)

lemma digits_value_decimal: "digits_value (decimal n) = int n"
proof (induction n rule: decimal.induct)
  case (1 n)
  show ?case
  proof (cases "n < 10")
    case True
    then show ?thesis
      by (subst decimal.simps) (simp add: digits_value_def digit_val_digit_char)
  next
    case False
    then have "digits_value (decimal n) = 10 * digits_value (decimal (n div 10)) + digit_val (digit_char (n mod 10))"
      by (subst decimal.simps) (simp add: digits_value_snoc)
    also have "\<dots> = 10 * int (n div 10) + int (n mod 10)"
      using "1.IH" [OF False] by (simp add: digit_val_digit_char)
    also have "\<dots> = int n" by (simp add: zdiv_int zmod_int)
    finally show ?thesis .
  qed
qed

lemma is_digit_plain: "is_digit c \<Longrightarrow> \<not> is_ws c \<and> c \<noteq> CHR ''-'' \<and> c \<noteq> CHR ''+''"
  by (auto simp: is_digit_def is_ws_def)

lemma parseInt10_digits:
  assumes "ds \<noteq> []" and "\<forall>c \<in> set ds. is_digit c"
  shows "parseInt10 ds = Num (digits_value ds)"
proof -
  obtain c cs where ds: "ds = c # cs" using assms(1) by (cases ds) auto
  have c: "\<not> is_ws c" "c \<noteq> CHR ''-''" "c \<noteq> CHR ''+''"
    using assms(2) is_digit_plain [of c] by (simp_all add: ds)
  have all: "takeWhile is_digit ds = ds"
    using assms(2) by simp
  have dw: "dropWhile is_ws ds = ds" using c by (simp add: ds)
  show ?thesis
    unfolding parseInt10_def dw Let_def using c all assms(1) by (simp add: ds)
qed

lemma split_on_no_sep: "d \<notin> set s \<Longrightarrow> split_on d s = [s]"
  by (induction s) auto

lemma parse_range_suffix:
  "parse_range (Some (''bytes=-'' @ decimal N)) = (0, Some (Num (int N)))"
proof -
  let ?ds = "decimal N"
  have nodash: "CHR ''-'' \<notin> set ?ds"
    using decimal_digits [of "CHR ''-''" N] is_digit_plain [of "CHR ''-''"] by auto
  have rm: "remove_first ''bytes='' (''bytes=-'' @ ?ds) = CHR ''-'' # ?ds"
    by (simp add: starts_with_def)
  have sp: "split_on (CHR ''-'') (CHR ''-'' # ?ds) = [[], ?ds]"
    using nodash by (simp add: split_on_no_sep)
  have p0: "parseInt10 [] = NaN" by (simp add: parseInt10_def)
  have p1: "parseInt10 ?ds = Num (int N)"
    using parseInt10_digits [of ?ds] decimal_digits [of _ N] decimal_nonempty [of N]
    by (simp add: digits_value_decimal)
  have ne: "(''bytes=-'' @ ?ds = []) = False" by simp
  show ?thesis
    by (simp only: parse_range_def option.case ne if_False rm sp Let_def)
      (simp add: p0 p1 decimal_nonempty)
qed

lemma byte_slice_prefix: "n < length buf \<Longrightarrow> byte_slice buf 0 (int n) = take (n + 1) buf"
proof (rule nth_equalityI)
  assume n: "n < length buf"
  show len: "length (byte_slice buf 0 (int n)) = length (take (n + 1) buf)"
    using n by (simp add: byte_slice_def)
  fix i assume "i < length (byte_slice buf 0 (int n))"
  then have i: "i \<le> n" and i': "i < length [0..int n]" using n by (simp_all add: byte_slice_def)
  have "[0..int n] ! i = 0 + int i" by (rule nth_upto) (use i in simp)
  then show "byte_slice buf 0 (int n) ! i = take (n + 1) buf ! i"
    using i i' by (simp add: byte_slice_def)
qed

subsection \<open>The suffix form of a range\<close>

text \<open>
  C10. A range header \<^verbatim>\<open>bytes=-N\<close> has no start value; the parser yields start \<open>0\<close>
  and end \<open>N\<close>. So with a cache entry whose buffer is longer than \<open>N\<close>, the cache
  path answers 206 with the leading bytes \<open>0, \<dots>, N\<close> of the buffer, \<open>N + 1\<close> of them,
  not the last \<open>N\<close> bytes of the resource, and calls no origin.
\<close>

theorem suffix_range_serves_prefix:
  assumes "resolve st req = Some entry" and "isGoFile hn (videoUrl entry)"
    and "map_get (cacheKey (videoUrl entry)) (videoCache st) = Some c"
    and "range_header req = Some (''bytes=-'' @ decimal N)"
    and "N < length (buffer c)"
    and "play hn ns origin st req = (r, st', calls)"
  shows "parse_range (range_header req) = (0, Some (Num (int N)))
       \<and> status r = 206 \<and> body r = Bytes (take (N + 1) (buffer c)) \<and> calls = []"
proof -
  have pr: "parse_range (range_header req) = (0, Some (Num (int N)))"
    unfolding assms(4) by (rule parse_range_suffix)
  have hr: "has_range (range_header req)"
    by (simp add: assms(4) has_range_def)
  have ee: "effective_end (buffer c) (Some (Num (int N))) = Num (int N)"
    by (simp add: effective_end_def)
  have ib: "in_buffer (buffer c) 0" "in_buffer (buffer c) (int N)"
    using assms(5) by (auto simp: in_buffer_def)
  obtain r0 where r0: "serve_cached ns c 0 (Some (Num (int N))) (cors_headers new_response) = Some r0"
    and props: "status r0 = 206" "body r0 = Bytes (byte_slice (buffer c) 0 (int N))"
    using serve_cached_hit [OF ee ib] by blast
  have "play hn ns origin st req = (r0, st, [])"
    using assms(1-3) hr pr r0 by (rule play_cache_hit)
  with assms(6) have "r = r0" "calls = []" by simp_all
  with props pr show ?thesis
    by (simp add: byte_slice_prefix [OF assms(5)])
qed

theorem suffix_range_serves_prefix_witness:
  "parse_range (Some ''bytes=-2'') = (0, Some (Num 2))
   \<and> status (fst (play sample_hostname num_string origin_down sample_state
        \<lparr>query_id = Some ''AQIDBA'', range_header = Some ''bytes=-2''\<rparr>)) = 206
   \<and> body (fst (play sample_hostname num_string origin_down sample_state
        \<lparr>query_id = Some ''AQIDBA'', range_header = Some ''bytes=-2''\<rparr>)) = Bytes [10, 11, 12]
   \<and> snd (snd (play sample_hostname num_string origin_down sample_state
        \<lparr>query_id = Some ''AQIDBA'', range_header = Some ''bytes=-2''\<rparr>)) = []"
proof -
  let ?req = "\<lparr>query_id = Some ''AQIDBA'', range_header = Some ''bytes=-2''\<rparr>"
  have a: "resolve sample_state ?req = Some sample_link"
    by (simp add: resolve_def map_get_def sample_state_def)
  have b: "isGoFile sample_hostname (videoUrl sample_link)"
    by (simp add: sample_link_def sample_trusted)
  have c: "map_get (cacheKey (videoUrl sample_link)) (videoCache sample_state) = Some sample_cached"
    by (simp add: sample_link_def sample_key map_get_def sample_state_def)
  have dec: "decimal 2 = ''2''" by (simp add: decimal.simps digit_char_def)
  have d: "range_header ?req = Some (''bytes=-'' @ decimal 2)" by (simp add: dec)
  have e: "2 < length (buffer sample_cached)" by (simp add: sample_cached_def)
  show ?thesis
    using suffix_range_serves_prefix [where origin = origin_down and ns = num_string,
        OF a b c d e triple_collapse]
    by (simp add: sample_cached_def)
qed

subsection \<open>One cache entry for all links to a URL\<close>

lemma prefetch_success:
  assumes "\<not> map_has (cacheKey url) cache"
    and "origin (prefetch_request url tok) = OriginResponse code hs d"
    and "200 \<le> code" and "code < 300"
  shows "prefetch origin now_prune now_store url tok cache =
     (Fulfilled,
      map_set (cacheKey url)
        (prefetch_entry now_store \<lparr>resp_status = code, resp_headers = hs, resp_data = d\<rparr>)
        (pruneCache now_prune cache),
      [prefetch_request url tok])"
  using assms by (simp add: prefetch_def prefetch_try_def axios_request_def)

lemma buffer_prefetch_entry [simp]: "buffer (prefetch_entry now_store resp) = resp_data resp"
  by (simp add: prefetch_entry_def Let_def)

text \<open>
  C8. The cache key is a function of the URL string alone, so two links whose entries
  carry the same URL have the same key and look up the same cache entry. Warming once,
  through either link, lets both hit the cache path: after a successful warm-up for the
  URL of the first link, a range request inside the stored bytes gets the same 206
  response through both identifiers, with no origin call.
\<close>

theorem same_url_shares_cache_entry:
  assumes "map_get i1 links = Some e1" and "map_get i2 links = Some e2"
    and "videoUrl e1 = videoUrl e2" and "isGoFile hn (videoUrl e1)"
    and "\<not> map_has (cacheKey (videoUrl e1)) cache"
    and "origin (prefetch_request (videoUrl e1) (token e1)) = OriginResponse code hs d"
    and "200 \<le> code" and "code < 300"
    and "prefetch origin now_prune now_store (videoUrl e1) (token e1) cache = (outcome, cache', calls)"
    and "has_range rh" and "parse_range rh = (rStart, rEnd)"
    and "effective_end d rEnd = Num e" and "in_buffer d rStart" and "in_buffer d e"
  shows "cacheKey (videoUrl e1) = cacheKey (videoUrl e2)
       \<and> map_get (cacheKey (videoUrl e1)) cache' = map_get (cacheKey (videoUrl e2)) cache'
       \<and> play hn ns origin' \<lparr>linkStore = links, videoCache = cache'\<rparr>
            \<lparr>query_id = Some i1, range_header = rh\<rparr> =
          play hn ns origin' \<lparr>linkStore = links, videoCache = cache'\<rparr>
            \<lparr>query_id = Some i2, range_header = rh\<rparr>
       \<and> status (fst (play hn ns origin' \<lparr>linkStore = links, videoCache = cache'\<rparr>
            \<lparr>query_id = Some i2, range_header = rh\<rparr>)) = 206
       \<and> body (fst (play hn ns origin' \<lparr>linkStore = links, videoCache = cache'\<rparr>
            \<lparr>query_id = Some i2, range_header = rh\<rparr>)) = Bytes (byte_slice d rStart e)
       \<and> snd (snd (play hn ns origin' \<lparr>linkStore = links, videoCache = cache'\<rparr>
            \<lparr>query_id = Some i2, range_header = rh\<rparr>)) = []"
proof -
  let ?st = "\<lparr>linkStore = links, videoCache = cache'\<rparr>"
  let ?entry = "prefetch_entry now_store \<lparr>resp_status = code, resp_headers = hs, resp_data = d\<rparr>"
  have "cache' = map_set (cacheKey (videoUrl e1)) ?entry (pruneCache now_prune cache)"
    using prefetch_success [where origin = origin and url = "videoUrl e1" and tok = "token e1"
        and cache = cache and now_prune = now_prune and now_store = now_store, OF assms(5-8)]
      assms(9) by simp
  then have hit: "map_get (cacheKey (videoUrl e1)) (videoCache ?st) = Some ?entry"
    by (simp add: map_get_map_set)
  have buf: "buffer ?entry = d" by simp
  obtain r where r: "serve_cached ns ?entry rStart rEnd (cors_headers new_response) = Some r"
    and props: "status r = 206" "body r = Bytes (byte_slice d rStart e)"
    using serve_cached_hit [where c = ?entry and rEnd = rEnd and e = e and rStart = rStart
        and ns = ns] assms(12-14) unfolding buf by blast
  have p1: "play hn ns origin' ?st \<lparr>query_id = Some i1, range_header = rh\<rparr> = (r, ?st, [])"
    by (rule play_cache_hit [where entry = e1 and c = ?entry and rStart = rStart and rEnd = rEnd])
      (use assms hit r in \<open>simp_all add: resolve_def\<close>)
  have p2: "play hn ns origin' ?st \<lparr>query_id = Some i2, range_header = rh\<rparr> = (r, ?st, [])"
    by (rule play_cache_hit [where entry = e2 and c = ?entry and rStart = rStart and rEnd = rEnd])
      (use assms hit r in \<open>simp_all add: resolve_def\<close>)
  show ?thesis
    using assms(3) by (simp add: p1 p2 props)
qed

theorem same_url_shares_cache_entry_witness:
  "play sample_hostname num_string origin_down
      \<lparr>linkStore = two_links,
       videoCache = fst (snd (prefetch origin_warm 1000 1001 sample_url ''guest'' []))\<rparr>
      \<lparr>query_id = Some ''AQIDBA'', range_header = Some ''bytes=1-3''\<rparr> =
   play sample_hostname num_string origin_down
      \<lparr>linkStore = two_links,
       videoCache = fst (snd (prefetch origin_warm 1000 1001 sample_url ''guest'' []))\<rparr>
      \<lparr>query_id = Some ''_____w'', range_header = Some ''bytes=1-3''\<rparr>
   \<and> body (fst (play sample_hostname num_string origin_down
      \<lparr>linkStore = two_links,
       videoCache = fst (snd (prefetch origin_warm 1000 1001 sample_url ''guest'' []))\<rparr>
      \<lparr>query_id = Some ''_____w'', range_header = Some ''bytes=1-3''\<rparr>)) = Bytes [11, 12, 13]
   \<and> snd (snd (play sample_hostname num_string origin_down
      \<lparr>linkStore = two_links,
       videoCache = fst (snd (prefetch origin_warm 1000 1001 sample_url ''guest'' []))\<rparr>
      \<lparr>query_id = Some ''_____w'', range_header = Some ''bytes=1-3''\<rparr>)) = []"
proof -
  let ?e2 = "sample_link\<lparr>token := ''other'', link_entry.createdAt := 5\<rparr>"
  have a1: "map_get ''AQIDBA'' two_links = Some sample_link"
    by (simp add: map_get_def two_links_def)
  have a2: "map_get ''_____w'' two_links = Some ?e2"
    by (simp add: map_get_def two_links_def)
  have u: "videoUrl sample_link = videoUrl ?e2" by simp
  have g: "isGoFile sample_hostname (videoUrl sample_link)"
    by (simp add: sample_link_def sample_trusted)
  have m: "\<not> map_has (cacheKey (videoUrl sample_link)) []" by (simp add: map_has_def)
  have o: "origin_warm (prefetch_request (videoUrl sample_link) (token sample_link)) =
      OriginResponse 206 [(''content-type'', ''video/mp4''), (''content-range'', ''bytes 0-3/100'')]
       [10, 11, 12, 13]"
    by (simp add: origin_warm_def)
  have c: "(200::nat) \<le> 206" "(206::nat) < 300" by simp_all
  have tk: "videoUrl sample_link = sample_url" "token sample_link = ''guest''"
    by (simp_all add: sample_link_def)
  have p: "prefetch origin_warm 1000 1001 (videoUrl sample_link) (token sample_link) [] =
      (fst (prefetch origin_warm 1000 1001 sample_url ''guest'' []),
       fst (snd (prefetch origin_warm 1000 1001 sample_url ''guest'' [])),
       snd (snd (prefetch origin_warm 1000 1001 sample_url ''guest'' [])))"
    by (simp add: tk)
  have hr: "has_range (Some ''bytes=1-3'')" by (simp add: has_range_def)
  have ee: "effective_end [10, 11, 12, 13] (Some (Num 3)) = Num 3"
    by (simp add: effective_end_def)
  have ib: "in_buffer [10, 11, 12, 13] 1" "in_buffer [10, 11, 12, 13] 3"
    by (simp_all add: in_buffer_def)
  have sl: "byte_slice [10, 11, 12, 13] 1 3 = [11, 12, 13]" by code_simp
  show ?thesis
    using same_url_shares_cache_entry [where origin' = origin_down and ns = num_string,
        OF a1 a2 u g m o c p hr parse_1_3 ee ib]
    by (simp add: sl)
qed

subsection \<open>What a warm-up stores\<close>

lemma set_pruneCache: "set (pruneCache now cache) \<subseteq> set cache"
  using set_evict_oldest [of MAX_CACHE "filter (\<lambda>(k, v). \<not> now - cache_entry.createdAt v > CACHE_TTL) cache"]
  by (auto simp: pruneCache_def)

lemma distinct_pruneCache: "distinct (map_keys cache) \<Longrightarrow> distinct (map_keys (pruneCache now cache))"
  by (simp add: pruneCache_def distinct_evict_oldest distinct_filter_keys)

lemma prefetch_cases:
  assumes "prefetch origin now_prune now_store url tok cache = (outcome, cache', calls)"
  shows "cache' = cache
       \<or> (\<exists>code hs d. origin (prefetch_request url tok) = OriginResponse code hs d
            \<and> cache' = map_set (cacheKey url)
                 (prefetch_entry now_store \<lparr>resp_status = code, resp_headers = hs, resp_data = d\<rparr>)
                 (pruneCache now_prune cache))"
  using assms
  by (auto simp: prefetch_def prefetch_try_def axios_request_def
      split: if_splits sum.splits origin_outcome.splits)

text \<open>
  A warm-up keeps the keys of the cache distinct, and an entry it adds has the body of the
  origin's response as its buffer, under the key derived from the URL.
\<close>

lemma warm_up_stores_body:
  assumes "distinct (map_keys cache)"
    and "prefetch origin now_prune now_store url tok cache = (outcome, cache', calls)"
  shows "distinct (map_keys cache')
       \<and> (\<forall>(k, v) \<in> set cache'. (k, v) \<in> set cache
             \<or> (\<exists>code hs. k = cacheKey url
                   \<and> origin (prefetch_request url tok) = OriginResponse code hs (buffer v)))"
proof -
  from prefetch_cases [OF assms(2)]
  consider (same) "cache' = cache"
    | (stored) code hs d where "origin (prefetch_request url tok) = OriginResponse code hs d"
        "cache' = map_set (cacheKey url)
           (prefetch_entry now_store \<lparr>resp_status = code, resp_headers = hs, resp_data = d\<rparr>)
           (pruneCache now_prune cache)"
    by blast
  then show ?thesis
  proof cases
    case same
    then show ?thesis using assms(1) by auto
  next
    case stored
    let ?entry = "prefetch_entry now_store \<lparr>resp_status = code, resp_headers = hs, resp_data = d\<rparr>"
    have sub: "set cache' \<subseteq> insert (cacheKey url, ?entry) (set cache)"
      using set_map_set_subset [of "cacheKey url" ?entry "pruneCache now_prune cache"]
        set_pruneCache [of now_prune cache] stored(2) by auto
    have d1: "distinct (map_keys cache')"
      using assms(1) by (simp add: stored(2) distinct_map_set distinct_pruneCache)
    have d2: "\<forall>(k, v) \<in> set cache'. (k, v) \<in> set cache
             \<or> (\<exists>code hs. k = cacheKey url
                   \<and> origin (prefetch_request url tok) = OriginResponse code hs (buffer v))"
      using sub stored(1) by auto
    from d1 d2 show ?thesis by blast
  qed
qed

lemma length_oversized_body: "int (length oversized_body) = CACHE_CHUNK + 1"
  unfolding oversized_body_def length_replicate by (simp add: CACHE_CHUNK_def)

text \<open>
  C9. The claim: every entry stored in the video cache holds at most \<^verbatim>\<open>CACHE_CHUNK\<close>
  bytes, however many bytes the origin's response to the ranged read contains, and the
  cache holds one entry per key. The warm-up asks for the bytes \<open>0, \<dots>, CACHE_CHUNK - 1\<close>
  and then stores the response body whole: when the origin ignores the range and answers
  200 with one byte more than the chunk size, the entry stored holds all of them, more
  than the ``2 MB prefetch per video'' the code's comments give.
\<close>

theorem oversized_body_is_cached:
  "map_of (cfg_headers (prefetch_request sample_url ''guest'')) ''Range'' = Some ''bytes=0-2097151''
   \<and> origin_oversized (prefetch_request sample_url ''guest'') = OriginResponse 200 [] oversized_body
   \<and> int (length oversized_body) = CACHE_CHUNK + 1
   \<and> cached_length (fst (snd (prefetch origin_oversized 1000 1001 sample_url ''guest'' [])))
        (cacheKey sample_url) = Some (CACHE_CHUNK + 1)"
proof -
  have "num_string (CACHE_CHUNK - 1) = ''2097151''"
    by (simp add: num_string_def CACHE_CHUNK_def decimal.simps digit_char_def)
  then have "map_of (cfg_headers (prefetch_request sample_url ''guest'')) ''Range'' =
      Some ''bytes=0-2097151''"
    by (simp add: prefetch_request_def)
  moreover have "cached_length (fst (snd (prefetch origin_oversized 1000 1001 sample_url ''guest'' [])))
        (cacheKey sample_url) = Some (CACHE_CHUNK + 1)"
    by (simp add: cached_length_def prefetch_def map_has_def prefetch_try_def axios_request_def
        origin_oversized_def map_get_def map_of_map_set length_oversized_body)
  ultimately show ?thesis
    by (simp add: origin_oversized_def length_oversized_body)
qed

subsection \<open>Identifiers of new links\<close>

lemma id_1234: "createShortId (1, 2, 3, 4) = ''AQIDBA''"
  by (simp add: b64_def base64url_alphabet_def)

lemma id_ffff: "createShortId (255, 255, 255, 255) = ''_____w''"
  by (simp add: b64_def base64url_alphabet_def)

lemma pruneLinks_live:
  assumes "length store \<le> MAX_LINKS"
    and "\<forall>(k, e) \<in> set store. \<not> now - link_entry.createdAt e > LINK_TTL"
  shows "pruneLinks now store = store"
proof -
  have "filter (\<lambda>(id, entry). \<not> now - link_entry.createdAt entry > LINK_TTL) store = store"
    using assms(2) by (auto simp: filter_id_conv)
  then show ?thesis
    using assms(1) by (simp add: pruneLinks_def evict_oldest_small)
qed

lemma prune_sample: "pruneLinks 1000 [(''AQIDBA'', sample_link)] = [(''AQIDBA'', sample_link)]"
  by (rule pruneLinks_live) (simp_all add: MAX_LINKS_def LINK_TTL_def sample_link_def)

text \<open>
  C4, as amended. \<^verbatim>\<open>storeLink\<close> stores under the identifier drawn from four random
  bytes and makes no collision check. Whenever the drawn identifier is not in the registry
  once the sweep has run, it is fresh: the new entry is appended and every entry that
  survived the sweep is kept as it was.
\<close>

theorem fresh_id_keeps_live_entries:
  assumes "storeLink rnd now_prune now_store data store = (i, store')"
    and "createShortId rnd \<notin> set (map_keys (pruneLinks now_prune store))"
  shows "i = createShortId rnd
       \<and> map_get i (pruneLinks now_prune store) = None
       \<and> store' = pruneLinks now_prune store
                    @ [(i, link_data.extend data (link_entry.fields now_store))]
       \<and> (\<forall>k. k \<noteq> i \<longrightarrow> map_get k store' = map_get k (pruneLinks now_prune store))"
proof -
  have i: "i = createShortId rnd"
    and s: "store' = map_set i (link_data.extend data (link_entry.fields now_store))
                       (pruneLinks now_prune store)"
    using assms(1) by (auto simp: storeLink_def Let_def)
  have "map_get i (pruneLinks now_prune store) = None"
    using assms(2) i by (simp add: map_get_def map_keys_def map_of_eq_None_iff)
  moreover have "store' = pruneLinks now_prune store
                    @ [(i, link_data.extend data (link_entry.fields now_store))]"
    using assms(2) i s by (simp add: map_set_fresh)
  moreover have "\<forall>k. k \<noteq> i \<longrightarrow> map_get k store' = map_get k (pruneLinks now_prune store)"
    by (simp add: s map_get_map_set)
  ultimately show ?thesis using i by simp
qed

theorem fresh_id_keeps_live_entries_witness:
  "fst (storeLink (255, 255, 255, 255) 1000 1001 other_data [(''AQIDBA'', sample_link)]) = ''_____w''
   \<and> snd (storeLink (255, 255, 255, 255) 1000 1001 other_data [(''AQIDBA'', sample_link)]) =
       [(''AQIDBA'', sample_link),
        (''_____w'', link_data.extend other_data (link_entry.fields 1001))]"
proof -
  have fresh: "createShortId (255, 255, 255, 255)
      \<notin> set (map_keys (pruneLinks 1000 [(''AQIDBA'', sample_link)]))"
    unfolding prune_sample id_ffff by (simp add: map_keys_def)
  show ?thesis
    using fresh_id_keeps_live_entries [where now_store = 1001 and data = other_data,
        OF prod.collapse [symmetric] fresh, unfolded id_ffff prune_sample]
    by simp
qed

text \<open>
  C4, as stated, says a live identifier is never reused. When the four random bytes repeat
  those of a live link, the identifier is the same and the live entry is overwritten.
\<close>

theorem colliding_id_counterexample:
  "map_get ''AQIDBA'' (pruneLinks 1000 [(''AQIDBA'', sample_link)]) = Some sample_link
   \<and> storeLink (1, 2, 3, 4) 1000 1001 other_data [(''AQIDBA'', sample_link)] =
       (''AQIDBA'', [(''AQIDBA'', link_data.extend other_data (link_entry.fields 1001))])"
  unfolding storeLink_def prune_sample id_1234 Let_def
  by (simp add: map_get_def)

subsection \<open>Identifiers are injective in the random bytes\<close>

lemma distinct_alphabet: "distinct base64url_alphabet"
  by (simp add: base64url_alphabet_def)

lemma length_alphabet: "length base64url_alphabet = 64"
  by (simp add: base64url_alphabet_def)

lemma b64_inj: "m < 64 \<Longrightarrow> n < 64 \<Longrightarrow> b64 m = b64 n \<Longrightarrow> m = n"
  using nth_eq_iff_index_eq [OF distinct_alphabet, of m n]
  by (simp add: b64_def length_alphabet)

lemma unat_byte: "unat (x :: byte) < 256"
  using unsigned_less [of x, where 'a = nat] by simp

lemma digits_unique:
  fixes x y x' y' :: nat
  assumes "x * k + y = x' * k + y'" and "y < k" and "y' < k"
  shows "x = x' \<and> y = y'"
proof -
  have "(x * k + y) div k = x" "(x' * k + y') div k = x'"
    using assms(2,3) by simp_all
  then have "x = x'" using assms(1) by simp
  then show ?thesis using assms(1) by simp
qed

lemma div_mod_unique:
  fixes a a' :: nat
  shows "a div k = a' div k \<Longrightarrow> a mod k = a' mod k \<Longrightarrow> a = a'"
  by (metis div_mult_mod_eq)

lemma sextet_bounds:
  fixes a b :: nat
  assumes "a < 256" and "b < 256"
  shows "a div 4 < 64" and "a mod 4 * 16 + b div 16 < 64" and "a mod 16 * 4 + b div 64 < 64"
    and "a mod 64 < 64" and "a mod 4 * 16 < 64" and "b div 16 < 16" and "b div 64 < 4"
proof -
  show "a div 4 < 64" using assms(1) by (simp add: less_mult_imp_div_less)
  show b16: "b div 16 < 16" using assms(2) by (simp add: less_mult_imp_div_less)
  show b64: "b div 64 < 4" using assms(2) by (simp add: less_mult_imp_div_less)
  have a4: "a mod 4 < 4" and a16: "a mod 16 < 16" by simp_all
  show "a mod 4 * 16 + b div 16 < 64" using a4 b16 by linarith
  show "a mod 16 * 4 + b div 64 < 64" using a16 b64 by linarith
  show "a mod 64 < 64" by simp
  show "a mod 4 * 16 < 64" using a4 by linarith
qed

lemma createShortId_inj:
  assumes "createShortId r = createShortId r'"
  shows "r = r'"
proof -
  obtain a b c d where r: "r = (a, b, c, d)" by (cases r) auto
  obtain a' b' c' d' where r': "r' = (a', b', c', d')" by (cases r') auto
  note bd = unat_byte [of a] unat_byte [of b] unat_byte [of c] unat_byte [of d]
  note bd' = unat_byte [of a'] unat_byte [of b'] unat_byte [of c'] unat_byte [of d']
  have eqs: "b64 (unat a div 4) = b64 (unat a' div 4)"
    "b64 (unat a mod 4 * 16 + unat b div 16) = b64 (unat a' mod 4 * 16 + unat b' div 16)"
    "b64 (unat b mod 16 * 4 + unat c div 64) = b64 (unat b' mod 16 * 4 + unat c' div 64)"
    "b64 (unat c mod 64) = b64 (unat c' mod 64)"
    "b64 (unat d div 4) = b64 (unat d' div 4)"
    "b64 (unat d mod 4 * 16) = b64 (unat d' mod 4 * 16)"
    using assms by (simp_all add: r r')
  have e1: "unat a div 4 = unat a' div 4"
    by (rule b64_inj [OF sextet_bounds(1) sextet_bounds(1) eqs(1)]) (rule bd bd')+
  have e2: "unat a mod 4 * 16 + unat b div 16 = unat a' mod 4 * 16 + unat b' div 16"
    by (rule b64_inj [OF sextet_bounds(2) sextet_bounds(2) eqs(2)]) (rule bd bd')+
  have e3: "unat b mod 16 * 4 + unat c div 64 = unat b' mod 16 * 4 + unat c' div 64"
    by (rule b64_inj [OF sextet_bounds(3) sextet_bounds(3) eqs(3)]) (rule bd bd')+
  have e4: "unat c mod 64 = unat c' mod 64"
    by (rule b64_inj [OF sextet_bounds(4) sextet_bounds(4) eqs(4)]) (rule bd bd')+
  have e5: "unat d div 4 = unat d' div 4"
    by (rule b64_inj [OF sextet_bounds(1) sextet_bounds(1) eqs(5)]) (rule bd bd')+
  have e6: "unat d mod 4 * 16 = unat d' mod 4 * 16"
    by (rule b64_inj [OF sextet_bounds(5) sextet_bounds(5) eqs(6)]) (rule bd bd')+
  from digits_unique [OF e2 sextet_bounds(6) [OF bd(2) bd(2)] sextet_bounds(6) [OF bd'(2) bd'(2)]]
  have a4: "unat a mod 4 = unat a' mod 4" and bh: "unat b div 16 = unat b' div 16"
    by simp_all
  from digits_unique [OF e3 sextet_bounds(7) [OF bd(3) bd(3)] sextet_bounds(7) [OF bd'(3) bd'(3)]]
  have bl: "unat b mod 16 = unat b' mod 16" and ch: "unat c div 64 = unat c' div 64"
    by simp_all
  from e6 have d4: "unat d mod 4 = unat d' mod 4" by simp
  have "unat a = unat a'" "unat b = unat b'" "unat c = unat c'" "unat d = unat d'"
    using div_mod_unique [OF e1 a4] div_mod_unique [OF bh bl] div_mod_unique [OF ch e4]
      div_mod_unique [OF e5 d4] by simp_all
  then show ?thesis by (simp add: r r' word_unat_eq_iff)
qed

lemma draw_inj: "i < 65536 \<Longrightarrow> j < 65536 \<Longrightarrow> draw i = draw j \<Longrightarrow> i = j"
proof -
  assume i: "i < 65536" and j: "j < 65536" and eq: "draw i = draw j"
  have hi: "(word_of_nat (i div 256) :: byte) = word_of_nat (j div 256)"
    and lo: "(word_of_nat (i mod 256) :: byte) = word_of_nat (j mod 256)"
    using eq by (simp_all add: draw_def)
  have bi: "i div 256 < 256" "j div 256 < 256"
    using i j by (simp_all add: less_mult_imp_div_less)
  have "unat (word_of_nat (i div 256) :: byte) = i div 256"
    "unat (word_of_nat (j div 256) :: byte) = j div 256"
    "unat (word_of_nat (i mod 256) :: byte) = i mod 256"
    "unat (word_of_nat (j mod 256) :: byte) = j mod 256"
    using bi by (simp_all add: unat_of_nat)
  then have "i div 256 = j div 256" "i mod 256 = j mod 256"
    using hi lo by metis+
  then show "i = j" by (rule div_mod_unique)
qed

lemma distinct_draw_ids: "n \<le> 65536 \<Longrightarrow> distinct (map createShortId (draws n))"
proof -
  assume n: "n \<le> 65536"
  have "inj_on (createShortId \<circ> draw) (set [0..<n])"
  proof (rule inj_onI)
    fix i j assume "i \<in> set [0..<n]" "j \<in> set [0..<n]"
      and "(createShortId \<circ> draw) i = (createShortId \<circ> draw) j"
    then have "i < 65536" "j < 65536" "draw i = draw j"
      using n by (auto dest: createShortId_inj)
    then show "i = j" by (rule draw_inj)
  qed
  then have "distinct (map (createShortId \<circ> draw) [0..<n])"
    by (simp add: distinct_map)
  then show ?thesis by (simp add: draws_def)
qed

subsection \<open>Capacity of the two stores\<close>

lemma createdAt_new_entry [simp]:
  "link_entry.createdAt (link_data.extend data (link_entry.fields now)) = now"
  by (simp add: link_data.defs link_entry.defs)

lemma storeLink_fresh:
  assumes "length store \<le> MAX_LINKS"
    and "\<forall>(k, e) \<in> set store. link_entry.createdAt e = now"
    and "createShortId rnd \<notin> set (map_keys store)"
  shows "snd (storeLink rnd now now data store) =
           store @ [(createShortId rnd, link_data.extend data (link_entry.fields now))]"
proof -
  have "pruneLinks now store = store"
    using assms(1,2) by (intro pruneLinks_live) (auto simp: LINK_TTL_def)
  then show ?thesis
    using assms(3) by (simp add: storeLink_def Let_def map_set_fresh)
qed

lemma store_all_fresh:
  assumes "distinct (map createShortId rs)"
    and "set (map createShortId rs) \<inter> set (map_keys store) = {}"
    and "length store + length rs \<le> Suc MAX_LINKS"
    and "\<forall>(k, e) \<in> set store. link_entry.createdAt e = now"
  shows "store_all rs now data store =
           store @ map (\<lambda>r. (createShortId r, link_data.extend data (link_entry.fields now))) rs"
  using assms
proof (induction rs arbitrary: store)
  case Nil
  then show ?case by simp
next
  case (Cons r rs)
  let ?new = "(createShortId r, link_data.extend data (link_entry.fields now))"
  have len: "length store \<le> MAX_LINKS" using Cons.prems(3) by simp
  have fresh: "createShortId r \<notin> set (map_keys store)" using Cons.prems(2) by auto
  have step: "snd (storeLink r now now data store) = store @ [?new]"
    using len Cons.prems(4) fresh by (rule storeLink_fresh)
  have "store_all rs now data (store @ [?new]) =
      (store @ [?new]) @ map (\<lambda>r. (createShortId r, link_data.extend data (link_entry.fields now))) rs"
  proof (rule Cons.IH)
    show "distinct (map createShortId rs)" using Cons.prems(1) by simp
    show "set (map createShortId rs) \<inter> set (map_keys (store @ [?new])) = {}"
      using Cons.prems(1,2) by (auto simp: map_keys_def)
    show "length (store @ [?new]) + length rs \<le> Suc MAX_LINKS" using Cons.prems(3) by simp
    show "\<forall>(k, e) \<in> set (store @ [?new]). link_entry.createdAt e = now"
      using Cons.prems(4) by auto
  qed
  then show ?case by (simp add: step)
qed

lemma length_draws: "length (draws n) = n"
  by (simp add: draws_def)

lemma first_draw: "0 < n \<Longrightarrow> draw 0 \<in> set (draws n)"
  by (auto simp: draws_def)

lemma store_all_draws:
  assumes "n \<le> Suc MAX_LINKS"
  shows "store_all (draws n) now data [] =
           map (\<lambda>r. (createShortId r, link_data.extend data (link_entry.fields now))) (draws n)"
proof -
  have "n \<le> 65536" using assms by (simp add: MAX_LINKS_def)
  then have "distinct (map createShortId (draws n))" by (rule distinct_draw_ids)
  then show ?thesis
    using store_all_fresh [of "draws n" "[]" now data] assms
    by (simp add: length_draws map_keys_def)
qed

lemma digit_is_hexdash: "is_digit c \<Longrightarrow> is_hexdash c"
  by (auto simp: is_digit_def is_hexdash_def)

lemma download_web_match_skip:
  "c \<noteq> CHR ''/'' \<Longrightarrow> download_web_match (c # s) = download_web_match s"
  by (simp add: starts_with_def Let_def)

lemma download_web_match_skip2:
  "c2 \<noteq> CHR ''d'' \<Longrightarrow> download_web_match (c # c2 # s) = download_web_match (c2 # s)"
  by (simp add: starts_with_def Let_def)

lemma download_web_match_found:
  assumes "\<forall>c \<in> set g. is_hexdash c" and "g \<noteq> []"
  shows "download_web_match (''/download/web/'' @ g @ CHR ''/'' # rest) = Some g"
proof -
  have slash: "\<not> is_hexdash (CHR ''/'')" by (simp add: is_hexdash_def)
  have tw: "takeWhile is_hexdash (g @ CHR ''/'' # rest) = g"
    using assms(1) slash by (simp add: takeWhile_tail)
  have dw: "dropWhile is_hexdash (g @ CHR ''/'' # rest) = CHR ''/'' # rest"
    using assms(1) slash by simp
  have "''/download/web/'' @ g @ CHR ''/'' # rest = CHR ''/'' # ''download/web/'' @ g @ CHR ''/'' # rest"
    by simp
  moreover have "download_web_match (CHR ''/'' # ''download/web/'' @ g @ CHR ''/'' # rest) = Some g"
    by (subst download_web_match.simps)
      (simp add: starts_with_def Let_def tw dw slash assms(2) del: download_web_match.simps)
  ultimately show ?thesis by simp
qed

lemma cacheKey_video_url: "cacheKey (video_url i) = decimal i"
proof -
  have hd: "\<forall>c \<in> set (decimal i). is_hexdash c"
    using decimal_digits digit_is_hexdash by blast
  have found: "download_web_match (''/download/web/'' @ decimal i @ CHR ''/'' # ''v.mp4'') = Some (decimal i)"
    using hd decimal_nonempty by (rule download_web_match_found)
  have "download_web_match (video_url i) =
      download_web_match (''/download/web/'' @ decimal i @ CHR ''/'' # ''v.mp4'')"
    unfolding video_url_def
    by (simp add: download_web_match_skip download_web_match_skip2 del: download_web_match.simps)
  with found have "download_web_match (video_url i) = Some (decimal i)"
    by (simp only:)
  then show ?thesis by (simp only: cacheKey_def option.case)
qed

lemma decimal_inj: "decimal i = decimal j \<Longrightarrow> i = j"
proof -
  assume "decimal i = decimal j"
  then have "digits_value (decimal i) = digits_value (decimal j)" by (rule arg_cong)
  then have "int i = int j" unfolding digits_value_decimal .
  then show "i = j" by (rule int_int_eq [THEN iffD1])
qed

lemma distinct_video_keys: "distinct (map cacheKey (video_urls n))"
proof -
  have "inj_on (cacheKey \<circ> video_url) (set [0..<n])"
    by (rule inj_onI) (simp add: cacheKey_video_url decimal_inj)
  then have "distinct (map (cacheKey \<circ> video_url) [0..<n])"
    by (simp add: distinct_map)
  then show ?thesis by (simp add: video_urls_def)
qed

lemma pruneCache_live:
  assumes "length cache \<le> MAX_CACHE"
    and "\<forall>(k, v) \<in> set cache. \<not> now - cache_entry.createdAt v > CACHE_TTL"
  shows "pruneCache now cache = cache"
proof -
  have "filter (\<lambda>(k, v). \<not> now - cache_entry.createdAt v > CACHE_TTL) cache = cache"
    using assms(2) by (auto simp: filter_id_conv)
  then show ?thesis
    using assms(1) by (simp add: pruneCache_def evict_oldest_small)
qed

lemma createdAt_prefetch_entry [simp]:
  "cache_entry.createdAt (prefetch_entry now resp) = now"
  by (simp add: prefetch_entry_def Let_def)

lemma origin_warm_response:
  "axios_request origin_warm cfg =
     Inr \<lparr>resp_status = 206,
          resp_headers = [(''content-type'', ''video/mp4''), (''content-range'', ''bytes 0-3/100'')],
          resp_data = [10, 11, 12, 13]\<rparr>"
  by (simp add: axios_request_def origin_warm_def)

lemma prefetch_fresh:
  assumes "length cache \<le> MAX_CACHE"
    and "\<forall>(k, v) \<in> set cache. cache_entry.createdAt v = now"
    and "cacheKey url \<notin> set (map_keys cache)"
  shows "\<exists>entry. cache_entry.createdAt entry = now
      \<and> fst (snd (prefetch origin_warm now now url tok cache)) = cache @ [(cacheKey url, entry)]"
proof -
  have "pruneCache now cache = cache"
    using assms(1,2) by (intro pruneCache_live) (auto simp: CACHE_TTL_def)
  then show ?thesis
    using assms(3)
    by (simp add: prefetch_def prefetch_try_def origin_warm_response map_has_iff map_set_fresh)
qed

lemma warm_all_fresh:
  assumes "distinct (map cacheKey urls)"
    and "set (map cacheKey urls) \<inter> set (map_keys cache) = {}"
    and "length cache + length urls \<le> Suc MAX_CACHE"
    and "\<forall>(k, v) \<in> set cache. cache_entry.createdAt v = now"
  shows "map_keys (warm_all origin_warm urls now cache) = map_keys cache @ map cacheKey urls"
  using assms
proof (induction urls arbitrary: cache)
  case Nil
  then show ?case by simp
next
  case (Cons u us)
  have len: "length cache \<le> MAX_CACHE" using Cons.prems(3) by simp
  have fresh: "cacheKey u \<notin> set (map_keys cache)" using Cons.prems(2) by auto
  obtain entry where entry: "cache_entry.createdAt entry = now"
    and step: "fst (snd (prefetch origin_warm now now u ''guest'' cache)) = cache @ [(cacheKey u, entry)]"
    using prefetch_fresh [OF len Cons.prems(4) fresh] by blast
  have "map_keys (warm_all origin_warm us now (cache @ [(cacheKey u, entry)])) =
      map_keys (cache @ [(cacheKey u, entry)]) @ map cacheKey us"
  proof (rule Cons.IH)
    show "distinct (map cacheKey us)" using Cons.prems(1) by simp
    show "set (map cacheKey us) \<inter> set (map_keys (cache @ [(cacheKey u, entry)])) = {}"
      using Cons.prems(1,2) by (auto simp: map_keys_def)
    show "length (cache @ [(cacheKey u, entry)]) + length us \<le> Suc MAX_CACHE"
      using Cons.prems(3) by simp
    show "\<forall>(k, v) \<in> set (cache @ [(cacheKey u, entry)]). cache_entry.createdAt v = now"
      using Cons.prems(4) entry by auto
  qed
  then show ?case by (simp add: step map_keys_def)
qed

lemma warm_all_video_urls:
  assumes "n \<le> Suc MAX_CACHE"
  shows "map_keys (warm_all origin_warm (video_urls n) now []) = map cacheKey (video_urls n)"
  using warm_all_fresh [OF distinct_video_keys, of n "[]" now] assms
  by (simp add: video_urls_def map_keys_def)

lemma first_video_url: "0 < n \<Longrightarrow> video_url 0 \<in> set (video_urls n)"
  by (auto simp: video_urls_def)

lemma length_map_keys: "length (map_keys m) = length m"
  by (simp add: map_keys_def)

text \<open>What does hold: one entry above the configured maximum, never more.\<close>

lemma length_storeLink:
  "length (snd (storeLink rnd now_prune now_store data store)) \<le> MAX_LINKS + 1"
proof -
  have "length (pruneLinks now_prune store) \<le> MAX_LINKS"
    by (simp add: pruneLinks_def length_evict_oldest)
  then show ?thesis
    by (simp add: storeLink_def Let_def length_map_set)
qed

lemma length_prefetch:
  assumes "prefetch origin now_prune now_store url tok cache = (outcome, cache', calls)"
  shows "length cache' \<le> max (length cache) (MAX_CACHE + 1)"
proof -
  have "length (pruneCache now_prune cache) \<le> MAX_CACHE"
    by (simp add: pruneCache_def length_evict_oldest)
  then have "length (map_set k v (pruneCache now_prune cache)) \<le> MAX_CACHE + 1" for k v
    by (simp add: length_map_set)
  then have "length cache' \<le> length cache \<or> length cache' \<le> MAX_CACHE + 1"
    using prefetch_cases [OF assms] by blast
  then show ?thesis by linarith
qed

text \<open>
  C2. The claim: after any sequence of insertions the registry holds at most
  \<^verbatim>\<open>MAX_LINKS\<close> entries and the cache at most \<^verbatim>\<open>MAX_CACHE\<close>; after \<open>MAX + 1\<close> link
  insertions the size is \<open>MAX\<close> and the first entry is gone. The code sweeps before it
  inserts, so the entry just inserted is not counted: \<open>MAX_LINKS + 1\<close> links stored in a
  row with different identifiers, none expired, are all in the registry, the first one
  included, and \<open>MAX_CACHE + 1\<close> warm-ups of different videos leave as many cache entries.
\<close>

theorem stores_exceed_max:
  "length (store_all (draws (MAX_LINKS + 1)) 1000 other_data []) = MAX_LINKS + 1
   \<and> map_has (createShortId (draw 0)) (store_all (draws (MAX_LINKS + 1)) 1000 other_data [])
   \<and> length (warm_all origin_warm (video_urls (MAX_CACHE + 1)) 1000 []) = MAX_CACHE + 1
   \<and> map_has (cacheKey (video_url 0)) (warm_all origin_warm (video_urls (MAX_CACHE + 1)) 1000 [])"
proof -
  have eq: "store_all (draws (MAX_LINKS + 1)) 1000 other_data [] =
      map (\<lambda>r. (createShortId r, link_data.extend other_data (link_entry.fields 1000)))
        (draws (MAX_LINKS + 1))"
    by (rule store_all_draws) simp
  have "draw 0 \<in> set (draws (MAX_LINKS + 1))"
    by (rule first_draw) simp
  then have l1: "createShortId (draw 0)
      \<in> set (map_keys (store_all (draws (MAX_LINKS + 1)) 1000 other_data []))"
    unfolding eq by (force simp: map_keys_def)
  have l2: "length (store_all (draws (MAX_LINKS + 1)) 1000 other_data []) = MAX_LINKS + 1"
    unfolding eq length_map length_draws by (rule refl)
  have keys: "map_keys (warm_all origin_warm (video_urls (MAX_CACHE + 1)) 1000 []) =
      map cacheKey (video_urls (MAX_CACHE + 1))"
    by (rule warm_all_video_urls) simp
  have "video_url 0 \<in> set (video_urls (MAX_CACHE + 1))"
    by (rule first_video_url) simp
  then have c1: "cacheKey (video_url 0)
      \<in> set (map_keys (warm_all origin_warm (video_urls (MAX_CACHE + 1)) 1000 []))"
    unfolding keys by simp
  have "length (map_keys (warm_all origin_warm (video_urls (MAX_CACHE + 1)) 1000 [])) = MAX_CACHE + 1"
    unfolding keys by (simp add: video_urls_def)
  then have c2: "length (warm_all origin_warm (video_urls (MAX_CACHE + 1)) 1000 []) = MAX_CACHE + 1"
    unfolding length_map_keys .
  from l1 l2 c1 c2 show ?thesis
    unfolding map_has_iff by (intro conjI)
qed

subsection \<open>Parsed ranges are not negative\<close>

lemma split_on_nonempty: "split_on d s \<noteq> []"
  by (induction s) (auto split: list.splits)

lemma split_on_no_sep_in_parts: "p \<in> set (split_on d s) \<Longrightarrow> d \<notin> set p"
proof (induction s arbitrary: p)
  case Nil
  then show ?case by simp
next
  case (Cons c s)
  show ?case
  proof (cases "c = d")
    case True
    then show ?thesis using Cons by auto
  next
    case False
    obtain q qs where q: "split_on d s = q # qs"
      using split_on_nonempty [of d s] by (cases "split_on d s") auto
    then have "p = c # q \<or> p \<in> set qs" using Cons.prems False by simp
    then show ?thesis
    proof
      assume "p = c # q"
      moreover have "d \<notin> set q" using Cons.IH [of q] q by simp
      ultimately show ?thesis using False by auto
    next
      assume "p \<in> set qs"
      then show ?thesis using Cons.IH [of p] q by simp
    qed
  qed
qed

lemma digit_val_nonneg: "is_digit c \<Longrightarrow> 0 \<le> digit_val c"
  by (auto simp: is_digit_def digit_val_def)

lemma digits_value_nonneg: "\<forall>c \<in> set ds. is_digit c \<Longrightarrow> 0 \<le> digits_value ds"
proof (induction ds rule: rev_induct)
  case Nil
  then show ?case by (simp add: digits_value_def)
next
  case (snoc c ds)
  then have "0 \<le> digits_value ds" "0 \<le> digit_val c"
    by (simp_all add: digit_val_nonneg)
  then show ?case by (simp add: digits_value_snoc)
qed

text \<open>A part of the split header holds no minus sign, so what is parsed from it is not negative.\<close>

lemma parseInt10_nonneg:
  assumes "CHR ''-'' \<notin> set s" and "parseInt10 s = Num n"
  shows "0 \<le> n"
proof -
  let ?s1 = "dropWhile is_ws s"
  let ?s2 = "if ?s1 \<noteq> [] \<and> (hd ?s1 = CHR ''-'' \<or> hd ?s1 = CHR ''+'') then tl ?s1 else ?s1"
  have notneg: "\<not> (?s1 \<noteq> [] \<and> hd ?s1 = CHR ''-'')"
  proof
    assume a: "?s1 \<noteq> [] \<and> hd ?s1 = CHR ''-''"
    then have "hd ?s1 \<in> set ?s1" by (intro hd_in_set) simp
    then have "hd ?s1 \<in> set s" by (rule set_dropWhileD)
    then show False using a assms(1) by simp
  qed
  have "0 \<le> digits_value (takeWhile is_digit ?s2)"
    by (rule digits_value_nonneg) (auto dest: set_takeWhileD)
  then show ?thesis
    using assms(2) notneg by (auto simp: parseInt10_def Let_def split: if_splits)
qed

lemma parse_range_nonneg:
  assumes "parse_range rh = (rStart, rEnd)"
  shows "0 \<le> rStart \<and> (rEnd = Some (Num n) \<longrightarrow> 0 \<le> n)"
proof (cases "has_range rh")
  case False
  then show ?thesis
    using assms by (auto simp: parse_range_def has_range_def split: option.splits)
next
  case True
  then obtain r where r: "rh = Some r" "r \<noteq> []"
    by (auto simp: has_range_def split: option.splits)
  let ?parts = "split_on (CHR ''-'') (remove_first ''bytes='' r)"
  have ne: "?parts \<noteq> []" by (rule split_on_nonempty)
  have p0: "CHR ''-'' \<notin> set (?parts ! 0)"
    using ne by (intro split_on_no_sep_in_parts [of _ _ "remove_first ''bytes='' r"]) simp
  have p1: "CHR ''-'' \<notin> set (?parts ! 1)" if "1 < length ?parts"
    using that by (intro split_on_no_sep_in_parts [of _ _ "remove_first ''bytes='' r"]) simp
  have s: "rStart = (case parseInt10 (?parts ! 0) of NaN \<Rightarrow> 0 | Num n \<Rightarrow> n)"
    and e: "rEnd = (if 1 < length ?parts \<and> ?parts ! 1 \<noteq> []
                    then Some (parseInt10 (?parts ! 1)) else None)"
    using assms r by (simp_all add: parse_range_def Let_def)
  have "0 \<le> rStart"
    unfolding s using parseInt10_nonneg [OF p0] by (cases "parseInt10 (?parts ! 0)") auto
  moreover have "0 \<le> n" if "rEnd = Some (Num n)"
    using that e parseInt10_nonneg [OF p1, of n] by (auto split: if_splits)
  ultimately show ?thesis by simp
qed

text \<open>
  So the handler's test \<^verbatim>\<open>rStart < length && end < length\<close> says exactly that start and
  effective end lie in the buffer: the two theorems on ranges cover every request that
  finds a cache entry.
\<close>

lemma cache_test_in_buffer:
  assumes "parse_range rh = (rStart, rEnd)" and "effective_end buf rEnd = Num e"
  shows "(rStart < int (length buf) \<and> e < int (length buf))
      \<longleftrightarrow> (in_buffer buf rStart \<and> in_buffer buf e)"
proof -
  have s: "0 \<le> rStart" using parse_range_nonneg [OF assms(1)] by simp
  have "0 \<le> e" if "rStart < int (length buf)"
  proof (cases rEnd)
    case None
    then show ?thesis using assms(2) s that by (simp add: effective_end_def)
  next
    case (Some x)
    then show ?thesis
      using assms(2) parse_range_nonneg [OF assms(1), of e] by (simp add: effective_end_def)
  qed
  then show ?thesis using s by (auto simp: in_buffer_def)
qed

end
